theory Spec2Isabelle
  imports Complex_Main "HOL-Library.AList"
begin

section \<open>Data model of the spatial hash (spatialHash.ts)\<close>

text \<open>
  JavaScript numbers are idealised as real numbers (no rounding, no NaN, no infinities); cell
  coordinates, the results of \<open>Math.floor\<close>, are integers. Objects and containers are
  mutable and shared by reference between the element list, the children lists and the
  buckets, so they live in a store indexed by identity.
\<close>

type_synonym oid = nat
type_synonym cid = nat

text \<open>
  A cell key is the string \<open>`${x},${y}`\<close> in the source. The decimal rendering of a pair of
  integers determines the pair, so the key is modelled as the pair itself.
\<close>

type_synonym key = "int \<times> int"

datatype error = TypeError | NonFinite

record aabb =
  aabb_x :: real
  aabb_y :: real
  aabb_width :: real
  aabb_height :: real

record spatial =
  hashes :: "key list"
  xStart :: "int option"
  yStart :: "int option"
  xEnd :: "int option"
  yEnd :: "int option"

record display_object =
  pos_x :: real
  pos_y :: real
  pivot_x :: real
  pivot_y :: real
  scale_x :: real
  scale_y :: real
  localBounds :: aabb
  AABB :: "aabb option"
  spatial :: "spatial option"
  dirty :: bool
  staticObject :: bool
  visible :: bool

text \<open>
  The two closures that \<open>addContainer\<close> creates; the number tells the closures of one call
  from those of another, since \<open>off\<close> compares listeners by identity.
\<close>

datatype closure = Added nat | Removed nat

record cull_object =
  static :: bool
  added :: "closure option"
  removed :: "closure option"

record container =
  children :: "oid list"
  ccull :: "cull_object option"
  listeners :: "(string \<times> closure) list"

record options =
  o_size :: "real option"
  o_xSize :: "real option"
  o_ySize :: "real option"
  o_simpleTest :: "bool option"
  o_dirtyTest :: "bool option"

text \<open>
  The fields of the \<open>SpatialHash\<close> instance, together with the store of display objects and
  containers it refers to. \<open>hash\<close> is a JavaScript object used as a dictionary: an
  association list in insertion order with distinct keys.
\<close>

record world =
  xSize :: real
  ySize :: real
  simpleTest :: bool
  dirtyTest :: bool
  width :: real
  height :: real
  hash :: "(key \<times> oid list) list"
  containers :: "cid list"
  elements :: "oid list"
  lastBuckets :: nat
  objs :: "oid \<Rightarrow> display_object"
  conts :: "cid \<Rightarrow> container"
  nextClosure :: nat

section \<open>Helpers\<close>

definition bindE :: "error + 'a \<Rightarrow> ('a \<Rightarrow> error + 'b) \<Rightarrow> error + 'b" where
  "bindE m f = (case m of Inl e \<Rightarrow> Inl e | Inr a \<Rightarrow> f a)"

fun foldE :: "('a \<Rightarrow> 's \<Rightarrow> error + 's) \<Rightarrow> 'a list \<Rightarrow> 's \<Rightarrow> error + 's" where
  "foldE f [] s = Inr s"
| "foldE f (x # xs) s = bindE (f x s) (foldE f xs)"

definition upd_obj :: "oid \<Rightarrow> (display_object \<Rightarrow> display_object) \<Rightarrow> world \<Rightarrow> world" where
  "upd_obj ob f w = w\<lparr>objs := (objs w)(ob := f (objs w ob))\<rparr>"

definition upd_cont :: "cid \<Rightarrow> (container \<Rightarrow> container) \<Rightarrow> world \<Rightarrow> world" where
  "upd_cont c f w = w\<lparr>conts := (conts w)(c := f (conts w c))\<rparr>"

definition upd_spatial :: "oid \<Rightarrow> (spatial \<Rightarrow> spatial) \<Rightarrow> world \<Rightarrow> world" where
  "upd_spatial ob f w = upd_obj ob (\<lambda>d. d\<lparr>spatial := map_option f (spatial d)\<rparr>) w"

text \<open>\<open>{ hashes: [] }\<close>\<close>

definition empty_spatial :: spatial where
  "empty_spatial = \<lparr>hashes = [], xStart = None, yStart = None, xEnd = None, yEnd = None\<rparr>"

text \<open>
  \<open>list.splice(list.indexOf(v), 1)\<close>: removes the first occurrence of \<open>v\<close>; when \<open>v\<close> is
  absent \<open>indexOf\<close> is \<open>-1\<close> and \<open>splice(-1, 1)\<close> removes the last element.
\<close>

definition splice_indexOf :: "'a \<Rightarrow> 'a list \<Rightarrow> 'a list" where
  "splice_indexOf v xs = (if v \<in> set xs then remove1 v xs else butlast xs)"

text \<open>The bucket of a key, empty when the key was never created.\<close>

definition entry_of :: "(key \<times> oid list) list \<Rightarrow> key \<Rightarrow> oid list" where
  "entry_of h k = (case map_of h k of None \<Rightarrow> [] | Some l \<Rightarrow> l)"

definition bucket :: "world \<Rightarrow> key \<Rightarrow> oid list" where
  "bucket w k = entry_of (hash w) k"

definition hashes_of :: "world \<Rightarrow> oid \<Rightarrow> key list" where
  "hashes_of w ob = (case spatial (objs w ob) of None \<Rightarrow> [] | Some sp \<Rightarrow> hashes sp)"

section \<open>The SpatialHash methods\<close>

text \<open>
  The constructor. \<open>{ ...SpatialHashDefaultOptions, ...options }\<close> fills absent keys with
  the defaults; \<open>options.size\<close> is used when it is truthy, that is present and not zero.
  There is no validation and no \<open>throw\<close>.
\<close>

definition constructor ::
  "options \<Rightarrow> (oid \<Rightarrow> display_object) \<Rightarrow> (cid \<Rightarrow> container) \<Rightarrow> world" where
  "constructor opts os cs =
     (let xs = (case o_xSize opts of None \<Rightarrow> 1000 | Some v \<Rightarrow> v);
          ys = (case o_ySize opts of None \<Rightarrow> 1000 | Some v \<Rightarrow> v);
          st = (case o_simpleTest opts of None \<Rightarrow> True | Some b \<Rightarrow> b);
          dt = (case o_dirtyTest opts of None \<Rightarrow> True | Some b \<Rightarrow> b);
          sz = (case o_size opts of None \<Rightarrow> None | Some v \<Rightarrow> if v \<noteq> 0 then Some v else None)
      in \<lparr>xSize = (case sz of Some v \<Rightarrow> v | None \<Rightarrow> xs),
          ySize = (case sz of Some v \<Rightarrow> v | None \<Rightarrow> ys),
          simpleTest = st, dirtyTest = dt, width = 0, height = 0,
          hash = [], containers = [], elements = [], lastBuckets = 0,
          objs = os, conts = cs, nextClosure = 0\<rparr>)"

text \<open>
  \<open>getBounds\<close>. With a zero cell size the source divides by zero and gets an infinity or
  NaN, on which the loops over the range either never end or never run; that is outside
  this model and reported as \<open>NonFinite\<close>.
\<close>

definition cell_range :: "world \<Rightarrow> aabb \<Rightarrow> int \<times> int \<times> int \<times> int" where
  "cell_range w a =
     (\<lfloor>aabb_x a / xSize w\<rfloor>, \<lfloor>aabb_y a / ySize w\<rfloor>,
      \<lfloor>(aabb_x a + aabb_width a) / xSize w\<rfloor>,
      \<lfloor>(aabb_y a + aabb_height a) / ySize w\<rfloor>)"

definition getBounds :: "world \<Rightarrow> aabb \<Rightarrow> error + (int \<times> int \<times> int \<times> int)" where
  "getBounds w a =
     (if xSize w = 0 \<or> ySize w = 0 then Inl NonFinite else Inr (cell_range w a))"

text \<open>The keys visited by \<open>for y = yStart..yEnd: for x = xStart..xEnd\<close>, in that order.\<close>

definition cells :: "int \<times> int \<times> int \<times> int \<Rightarrow> key list" where
  "cells b = (case b of (xs, ys, xe, ye) \<Rightarrow>
     concat (map (\<lambda>y. map (\<lambda>x. (x, y)) [xs..xe]) [ys..ye]))"

definition insert_obj :: "oid \<Rightarrow> key \<Rightarrow> world \<Rightarrow> world" where
  "insert_obj ob k w =
     (case map_of (hash w) k of
        None \<Rightarrow> w\<lparr>hash := AList.update k [ob] (hash w)\<rparr>
      | Some l \<Rightarrow> w\<lparr>hash := AList.update k (l @ [ob]) (hash w)\<rparr>)"

text \<open>
  The loop of \<open>removeFromHash\<close> on the keys in the order \<open>pop\<close> yields them. A key without
  a bucket makes \<open>list.splice\<close> a call on \<open>undefined\<close>: a TypeError.
\<close>

fun purge :: "oid \<Rightarrow> key list \<Rightarrow> (key \<times> oid list) list \<Rightarrow> error + (key \<times> oid list) list" where
  "purge ob [] h = Inr h"
| "purge ob (k # ks) h =
     (case map_of h k of
        None \<Rightarrow> Inl TypeError
      | Some l \<Rightarrow> purge ob ks (AList.update k (splice_indexOf ob l) h))"

definition removeFromHash :: "oid \<Rightarrow> world \<Rightarrow> error + world" where
  "removeFromHash ob w =
     (case spatial (objs w ob) of
        None \<Rightarrow> Inr w
      | Some sp \<Rightarrow>
          bindE (purge ob (rev (hashes sp)) (hash w))
            (\<lambda>h. Inr (upd_spatial ob (\<lambda>s. s\<lparr>hashes := []\<rparr>) (w\<lparr>hash := h\<rparr>))))"

definition computeAABB :: "display_object \<Rightarrow> aabb" where
  "computeAABB d =
     (let box = localBounds d
      in \<lparr>aabb_x = pos_x d + (aabb_x box - pivot_x d) * scale_x d,
          aabb_y = pos_y d + (aabb_y box - pivot_y d) * scale_y d,
          aabb_width = aabb_width box * scale_x d,
          aabb_height = aabb_height box * scale_y d\<rparr>)"

definition range_differs :: "spatial \<Rightarrow> int \<times> int \<times> int \<times> int \<Rightarrow> bool" where
  "range_differs sp b = (case b of (xs, ys, xe, ye) \<Rightarrow>
     xStart sp \<noteq> Some xs \<or> yStart sp \<noteq> Some ys \<or> xEnd sp \<noteq> Some xe \<or> yEnd sp \<noteq> Some ye)"

definition set_range :: "oid \<Rightarrow> int \<times> int \<times> int \<times> int \<Rightarrow> world \<Rightarrow> world" where
  "set_range ob b w = (case b of (xs, ys, xe, ye) \<Rightarrow>
     upd_spatial ob (\<lambda>s. s\<lparr>xStart := Some xs, yStart := Some ys,
                            xEnd := Some xe, yEnd := Some ye\<rparr>) w)"

definition insert_key :: "oid \<Rightarrow> key \<Rightarrow> world \<Rightarrow> world" where
  "insert_key ob k w = upd_spatial ob (\<lambda>s. s\<lparr>hashes := hashes s @ [k]\<rparr>) (insert_obj ob k w)"

text \<open>\<open>spatial = object.spatial\<close>, or the fresh \<open>{ hashes: [] }\<close> when there is none.\<close>

definition spatial_or_empty :: "display_object \<Rightarrow> spatial" where
  "spatial_or_empty d = (case spatial d of None \<Rightarrow> empty_spatial | Some s \<Rightarrow> s)"

definition updateObject :: "oid \<Rightarrow> world \<Rightarrow> error + world" where
  "updateObject ob w =
     (let a = computeAABB (objs w ob);
          sp = spatial_or_empty (objs w ob);
          w1 = upd_obj ob (\<lambda>d. d\<lparr>AABB := Some a, spatial := Some sp\<rparr>) w
      in bindE (getBounds w1 a) (\<lambda>b.
           if range_differs sp b
           then bindE (if hashes sp \<noteq> [] then removeFromHash ob w1 else Inr w1)
                  (\<lambda>w2. Inr (set_range ob b (fold (insert_key ob) (cells b) w2)))
           else Inr w1))"

definition add_obj :: "oid \<Rightarrow> bool \<Rightarrow> world \<Rightarrow> error + world" where
  "add_obj ob staticObj w =
     (let w1 = upd_obj ob (\<lambda>d. d\<lparr>spatial := Some empty_spatial\<rparr>) w;
          w2 = (if dirtyTest w1 then upd_obj ob (\<lambda>d. d\<lparr>dirty := True\<rparr>) w1 else w1);
          w3 = (if staticObj then upd_obj ob (\<lambda>d. d\<lparr>staticObject := True\<rparr>) w2 else w2)
      in bindE (updateObject ob w3) (\<lambda>w4. Inr (w4\<lparr>elements := elements w4 @ [ob]\<rparr>)))"

definition remove_obj :: "oid \<Rightarrow> world \<Rightarrow> error + world" where
  "remove_obj ob w = removeFromHash ob (w\<lparr>elements := splice_indexOf ob (elements w)\<rparr>)"

text \<open>
  The event emitter of the container (pixi.js, outside the repository): \<open>on\<close> appends a
  listener, \<open>off\<close> removes the listeners of that event with that function, or all
  listeners of the event when the function is \<open>undefined\<close>.
\<close>

definition on_event :: "string \<Rightarrow> closure \<Rightarrow> container \<Rightarrow> container" where
  "on_event ev f c = c\<lparr>listeners := listeners c @ [(ev, f)]\<rparr>"

definition off_event :: "string \<Rightarrow> closure option \<Rightarrow> container \<Rightarrow> container" where
  "off_event ev fn c =
     c\<lparr>listeners := filter (\<lambda>l. \<not> (fst l = ev \<and> (case fn of None \<Rightarrow> True | Some f \<Rightarrow> snd l = f)))
                       (listeners c)\<rparr>"

text \<open>The body shared by the \<open>added\<close> closure and the loop of \<open>addContainer\<close>.\<close>

definition track_child :: "oid \<Rightarrow> world \<Rightarrow> error + world" where
  "track_child ob w = updateObject ob (upd_obj ob (\<lambda>d. d\<lparr>spatial := Some empty_spatial\<rparr>) w)"

definition addContainer :: "cid \<Rightarrow> bool \<Rightarrow> world \<Rightarrow> error + world" where
  "addContainer c staticObj w =
     (let n = nextClosure w; w0 = w\<lparr>nextClosure := n + 1\<rparr>
      in bindE (foldE track_child (children (conts w0 c)) w0) (\<lambda>w1.
           let w2 = upd_cont c (\<lambda>k. k\<lparr>ccull := Some \<lparr>static = False, added = None, removed = None\<rparr>\<rparr>) w1;
               w3 = w2\<lparr>containers := containers w2 @ [c]\<rparr>;
               w4 = upd_cont c (on_event ''childAdded'' (Added n)) w3;
               w5 = upd_cont c (on_event ''childRemoved'' (Removed n)) w4;
               w6 = upd_cont c (\<lambda>k. k\<lparr>ccull := map_option
                      (\<lambda>cu. cu\<lparr>added := Some (Added n), removed := Some (Removed n)\<rparr>) (ccull k)\<rparr>) w5;
               w7 = (if staticObj
                     then upd_cont c (\<lambda>k. k\<lparr>ccull := map_option (\<lambda>cu. cu\<lparr>static := True\<rparr>) (ccull k)\<rparr>) w6
                     else w6)
           in Inr w7))"

definition removeContainer :: "cid \<Rightarrow> world \<Rightarrow> error + world" where
  "removeContainer c w =
     (let w1 = w\<lparr>containers := splice_indexOf c (containers w)\<rparr>
      in bindE (foldE removeFromHash (children (conts w1 c)) w1) (\<lambda>w2.
           let w3 = upd_cont c (\<lambda>k. off_event ''childAdded'' (Option.bind (ccull k) added) k) w2;
               w4 = upd_cont c (\<lambda>k. off_event ''removedFrom'' (Option.bind (ccull k) removed) k) w3;
               w5 = upd_cont c (\<lambda>k. k\<lparr>ccull := None\<rparr>) w4
           in Inr w5))"

definition invisible :: "world \<Rightarrow> world" where
  "invisible w =
     fold (\<lambda>c w'. fold (\<lambda>ob. upd_obj ob (\<lambda>d. d\<lparr>visible := False\<rparr>)) (children (conts w' c)) w')
       (containers w)
       (fold (\<lambda>ob. upd_obj ob (\<lambda>d. d\<lparr>visible := False\<rparr>)) (elements w) w)"

text \<open>\<open>!container.cull?.static\<close>: a container without a \<open>cull\<close> object is not static.\<close>

definition is_static :: "container \<Rightarrow> bool" where
  "is_static k = (case ccull k of None \<Rightarrow> False | Some cu \<Rightarrow> static cu)"

definition update_if_dirty :: "oid \<Rightarrow> world \<Rightarrow> error + world" where
  "update_if_dirty ob w =
     (if dirty (objs w ob)
      then bindE (updateObject ob w) (\<lambda>w'. Inr (upd_obj ob (\<lambda>d. d\<lparr>dirty := False\<rparr>) w'))
      else Inr w)"

definition update_unless_static :: "oid \<Rightarrow> world \<Rightarrow> error + world" where
  "update_unless_static ob w = (if \<not> staticObject (objs w ob) then updateObject ob w else Inr w)"

definition updateObjects :: "world \<Rightarrow> error + world" where
  "updateObjects w =
     (if dirtyTest w
      then bindE (foldE update_if_dirty (elements w) w)
             (foldE (\<lambda>c w'. if \<not> is_static (conts w' c)
                             then foldE update_if_dirty (children (conts w' c)) w'
                             else Inr w') (containers w))
      else bindE (foldE update_unless_static (elements w) w)
             (foldE (\<lambda>c w'. if \<not> is_static (conts w' c)
                             then foldE updateObject (children (conts w' c)) w'
                             else Inr w') (containers w)))"

definition getBuckets :: "real option \<Rightarrow> world \<Rightarrow> oid list list" where
  "getBuckets minimum w =
     (let m = (case minimum of None \<Rightarrow> 1 | Some v \<Rightarrow> v)
      in filter (\<lambda>l. of_nat (length l) \<ge> m) (map snd (hash w)))"

definition getNumberOfBuckets :: "world \<Rightarrow> nat" where
  "getNumberOfBuckets w = length (hash w)"

text \<open>The bounds test of \<open>query\<close> and \<open>queryCallbackAll\<close>, \<open>box\<close> against the query rectangle.\<close>

definition intersects :: "aabb \<Rightarrow> aabb \<Rightarrow> bool" where
  "intersects box R =
     (aabb_x box + aabb_width box > aabb_x R \<and> aabb_x box < aabb_x R + aabb_width R
      \<and> aabb_y box + aabb_height box > aabb_y R \<and> aabb_y box < aabb_y R + aabb_height R)"

text \<open>
  The inner loop of \<open>query\<close> with \<open>simpleTest\<close>; reading \<open>box.x\<close> of an object without a
  cached AABB is a TypeError.
\<close>

fun query_entry :: "world \<Rightarrow> aabb \<Rightarrow> oid list \<Rightarrow> oid list \<Rightarrow> error + oid list" where
  "query_entry w R [] results = Inr results"
| "query_entry w R (ob # entry) results =
     (case AABB (objs w ob) of
        None \<Rightarrow> Inl TypeError
      | Some box \<Rightarrow> query_entry w R entry (if intersects box R then results @ [ob] else results))"

definition query_cell ::
  "world \<Rightarrow> aabb \<Rightarrow> bool \<Rightarrow> key \<Rightarrow> nat \<times> oid list \<Rightarrow> error + (nat \<times> oid list)" where
  "query_cell w R st k acc = (case acc of (buckets, results) \<Rightarrow>
     (case map_of (hash w) k of
        None \<Rightarrow> Inr (buckets, results)
      | Some entry \<Rightarrow>
          bindE (if st then query_entry w R entry results else Inr (results @ entry))
            (\<lambda>rs. Inr (buckets + 1, rs))))"

definition query :: "aabb \<Rightarrow> bool \<Rightarrow> world \<Rightarrow> error + (oid list \<times> world)" where
  "query R st w =
     bindE (getBounds w R) (\<lambda>b.
       bindE (foldE (query_cell w R st) (cells b) (0, []))
         (\<lambda>acc. case acc of (buckets, results) \<Rightarrow> Inr (results, w\<lparr>lastBuckets := buckets\<rparr>)))"

text \<open>
  A caller's callback acts on the caller's own state \<open>'u\<close> and returns a boolean; it is
  taken not to touch the index or the objects.
\<close>

type_synonym 'u callback = "oid \<Rightarrow> 'u \<Rightarrow> bool \<times> 'u"

fun qca_entry ::
  "world \<Rightarrow> aabb \<Rightarrow> 'u callback \<Rightarrow> oid list \<Rightarrow> oid list \<times> 'u \<Rightarrow> error + (oid list \<times> 'u)" where
  "qca_entry w R cb [] acc = Inr acc"
| "qca_entry w R cb (ob # entry) acc =
     (case AABB (objs w ob) of
        None \<Rightarrow> Inl TypeError
      | Some box \<Rightarrow>
          qca_entry w R cb entry
            (if intersects box R then (fst acc @ [ob], snd (cb ob (snd acc))) else acc))"

definition qca_cell ::
  "world \<Rightarrow> aabb \<Rightarrow> bool \<Rightarrow> 'u callback \<Rightarrow> key \<Rightarrow> nat \<times> oid list \<times> 'u
     \<Rightarrow> error + (nat \<times> oid list \<times> 'u)" where
  "qca_cell w R st cb k acc = (case acc of (buckets, results, u) \<Rightarrow>
     (case map_of (hash w) k of
        None \<Rightarrow> Inr (buckets, results, u)
      | Some entry \<Rightarrow>
          bindE (if st then qca_entry w R cb entry (results, u)
                 else Inr (results @ entry, fold (\<lambda>ob u'. snd (cb ob u')) entry u))
            (\<lambda>r. Inr (buckets + 1, fst r, snd r))))"

definition queryCallbackAll ::
  "aabb \<Rightarrow> bool \<Rightarrow> 'u callback \<Rightarrow> world \<Rightarrow> 'u \<Rightarrow> error + (oid list \<times> world \<times> 'u)" where
  "queryCallbackAll R st cb w u =
     bindE (getBounds w R) (\<lambda>b.
       bindE (foldE (qca_cell w R st cb) (cells b) (0, [], u))
         (\<lambda>acc. case acc of (buckets, results, u') \<Rightarrow>
            Inr (results, w\<lparr>lastBuckets := buckets\<rparr>, u')))"

text \<open>
  \<open>queryCallback\<close>. Inside the loop the source declares \<open>const AABB = object.AABB\<close>, which
  shadows the parameter, so the bounds test compares the object's box with itself.
\<close>

fun qc_entry :: "world \<Rightarrow> 'u callback \<Rightarrow> bool \<Rightarrow> oid list \<Rightarrow> 'u \<Rightarrow> error + (bool \<times> 'u)" where
  "qc_entry w cb st [] u = Inr (False, u)"
| "qc_entry w cb st (ob # entry) u =
     (if st
      then (case AABB (objs w ob) of
              None \<Rightarrow> Inl TypeError
            | Some a \<Rightarrow>
                if intersects a a
                then (case cb ob u of (r, u') \<Rightarrow>
                        if r then Inr (True, u') else qc_entry w cb st entry u')
                else qc_entry w cb st entry u)
      else (case cb ob u of (r, u') \<Rightarrow>
              if r then Inr (True, u') else qc_entry w cb st entry u'))"

fun qc_cells :: "world \<Rightarrow> 'u callback \<Rightarrow> bool \<Rightarrow> key list \<Rightarrow> 'u \<Rightarrow> error + (bool \<times> 'u)" where
  "qc_cells w cb st [] u = Inr (False, u)"
| "qc_cells w cb st (k # ks) u =
     (case map_of (hash w) k of
        None \<Rightarrow> qc_cells w cb st ks u
      | Some entry \<Rightarrow>
          bindE (qc_entry w cb st entry u)
            (\<lambda>r. if fst r then Inr (True, snd r) else qc_cells w cb st ks (snd r)))"

definition queryCallback ::
  "aabb \<Rightarrow> 'u callback \<Rightarrow> bool \<Rightarrow> world \<Rightarrow> 'u \<Rightarrow> error + (bool \<times> 'u)" where
  "queryCallback R cb st w u = bindE (getBounds w R) (\<lambda>b. qc_cells w cb st (cells b) u)"

definition cull ::
  "aabb \<Rightarrow> bool \<Rightarrow> 'u callback option \<Rightarrow> world \<Rightarrow> 'u \<Rightarrow> error + (nat \<times> world \<times> 'u)" where
  "cull R skipUpdate callback w u =
     bindE (if \<not> skipUpdate then updateObjects w else Inr w) (\<lambda>w1.
       let w2 = invisible w1
       in bindE (case callback of
                   Some cb \<Rightarrow> queryCallbackAll R (simpleTest w2) cb w2 u
                 | None \<Rightarrow> bindE (query R (simpleTest w2) w2) (\<lambda>r. Inr (fst r, snd r, u)))
            (\<lambda>r. case r of (objects, w3, u') \<Rightarrow>
               let w4 = fold (\<lambda>ob. upd_obj ob (\<lambda>d. d\<lparr>visible := True\<rparr>)) objects w3
               in Inr (lastBuckets w4, w4, u')))"

section \<open>The scene graph and the callers\<close>

text \<open>
  What the owner of the objects does between calls: \<open>addChild\<close> and \<open>removeChild\<close> of a
  container (pixi.js) change the children and emit \<open>childAdded\<close> or \<open>childRemoved\<close> to
  the listeners in order of subscription; \<open>SetObject\<close> overwrites the fields of an object
  that belong to its owner (transform, local bounds, \<open>dirty\<close>, \<open>visible\<close>,
  \<open>staticObject\<close>) and leaves \<open>AABB\<close> and \<open>spatial\<close>, which belong to the index.
\<close>

fun run_closure :: "closure \<Rightarrow> oid \<Rightarrow> world \<Rightarrow> error + world" where
  "run_closure (Added n) ob w = track_child ob w"
| "run_closure (Removed n) ob w = removeFromHash ob w"

definition emit :: "cid \<Rightarrow> string \<Rightarrow> oid \<Rightarrow> world \<Rightarrow> error + world" where
  "emit c ev ob w =
     foldE (\<lambda>l w'. run_closure (snd l) ob w') (filter (\<lambda>l. fst l = ev) (listeners (conts w c))) w"

definition addChild :: "cid \<Rightarrow> oid \<Rightarrow> world \<Rightarrow> error + world" where
  "addChild c ob w = emit c ''childAdded'' ob (upd_cont c (\<lambda>k. k\<lparr>children := children k @ [ob]\<rparr>) w)"

definition removeChild :: "cid \<Rightarrow> oid \<Rightarrow> world \<Rightarrow> error + world" where
  "removeChild c ob w =
     (if ob \<in> set (children (conts w c))
      then emit c ''childRemoved'' ob (upd_cont c (\<lambda>k. k\<lparr>children := remove1 ob (children k)\<rparr>) w)
      else Inr w)"

definition setObject :: "oid \<Rightarrow> display_object \<Rightarrow> world \<Rightarrow> world" where
  "setObject ob d w = upd_obj ob (\<lambda>old. d\<lparr>AABB := AABB old, spatial := spatial old\<rparr>) w"

datatype op =
    Add oid bool
  | Remove oid
  | AddContainer cid bool
  | RemoveContainer cid
  | UpdateObjects
  | Cull aabb bool
  | AddChild cid oid
  | RemoveChild cid oid
  | SetObject oid display_object

fun step :: "op \<Rightarrow> world \<Rightarrow> error + world" where
  "step (Add ob st) w = add_obj ob st w"
| "step (Remove ob) w = remove_obj ob w"
| "step (AddContainer c st) w = addContainer c st w"
| "step (RemoveContainer c) w = removeContainer c w"
| "step UpdateObjects w = updateObjects w"
| "step (Cull R skip) w = bindE (cull R skip None w ()) (\<lambda>r. Inr (fst (snd r)))"
| "step (AddChild c ob) w = addChild c ob w"
| "step (RemoveChild c ob) w = removeChild c ob w"
| "step (SetObject ob d) w = Inr (setObject ob d w)"

definition run :: "op list \<Rightarrow> world \<Rightarrow> error + world" where
  "run ops w = foldE step ops w"

section \<open>Invariants of the index\<close>

text \<open>
  What every reachable state satisfies, whatever the callers do: the cell sizes are not
  zero, the keys in an object's spatial state are distinct, the object is in the bucket of
  each of them, and every object in a bucket has a cached AABB. It is what keeps
  \<open>removeFromHash\<close> and the queries from raising.
\<close>

definition wf_index :: "world \<Rightarrow> bool" where
  "wf_index w \<longleftrightarrow>
     xSize w \<noteq> 0 \<and> ySize w \<noteq> 0
     \<and> (\<forall>ob. distinct (hashes_of w ob))
     \<and> (\<forall>ob k. k \<in> set (hashes_of w ob) \<longrightarrow> ob \<in> set (bucket w k))
     \<and> (\<forall>k ob. ob \<in> set (bucket w k) \<longrightarrow> AABB (objs w ob) \<noteq> None)"

text \<open>
  Bidirectional consistency of the buckets and the spatial states: an object is exactly
  once in the bucket of each key of its spatial state, and every entry of a bucket has the
  bucket's key in its spatial state.
\<close>

definition consistent :: "world \<Rightarrow> bool" where
  "consistent w \<longleftrightarrow>
     (\<forall>ob k. k \<in> set (hashes_of w ob) \<longrightarrow> count_list (bucket w k) ob = 1)
     \<and> (\<forall>k ob. ob \<in> set (bucket w k) \<longrightarrow> k \<in> set (hashes_of w ob))"

definition tracked :: "world \<Rightarrow> oid \<Rightarrow> bool" where
  "tracked w ob \<longleftrightarrow>
     ob \<in> set (elements w) \<or> (\<exists>c\<in>set (containers w). ob \<in> set (children (conts w c)))"

text \<open>
  The fields of the index other than the buckets, the objects and the bucket count of the
  last query are the same.
\<close>

definition same_rest :: "world \<Rightarrow> world \<Rightarrow> bool" where
  "same_rest w w' \<longleftrightarrow>
     xSize w' = xSize w \<and> ySize w' = ySize w \<and> simpleTest w' = simpleTest w
     \<and> dirtyTest w' = dirtyTest w \<and> width w' = width w \<and> height w' = height w
     \<and> containers w' = containers w \<and> elements w' = elements w
     \<and> conts w' = conts w \<and> nextClosure w' = nextClosure w"

text \<open>The keys of the hash are kept, in order, and new ones come after them.\<close>

definition keys_extend :: "world \<Rightarrow> world \<Rightarrow> bool" where
  "keys_extend w w' \<longleftrightarrow> (\<exists>ks. map fst (hash w') = map fst (hash w) @ ks)"

text \<open>The cached AABB of an object intersects the rectangle.\<close>

definition hit :: "world \<Rightarrow> aabb \<Rightarrow> oid \<Rightarrow> bool" where
  "hit w R ob = (case AABB (objs w ob) of None \<Rightarrow> False | Some box \<Rightarrow> intersects box R)"

text \<open>
  The object is in the bucket of a cell of the rectangle's range and, with the bounds test,
  its cached AABB intersects the rectangle.
\<close>

definition found :: "world \<Rightarrow> aabb \<Rightarrow> bool \<Rightarrow> oid \<Rightarrow> bool" where
  "found w R st ob \<longleftrightarrow>
     (\<exists>k\<in>set (cells (cell_range w R)). ob \<in> set (bucket w k) \<and> (st \<longrightarrow> hit w R ob))"

text \<open>
  An operation on one object leaves the others alone: their records and the number of
  times each occurs in each bucket.
\<close>

definition others_same :: "oid \<Rightarrow> world \<Rightarrow> world \<Rightarrow> bool" where
  "others_same ob w w' \<longleftrightarrow>
     same_rest w w' \<and> keys_extend w w'
     \<and> (\<forall>p. p \<noteq> ob \<longrightarrow> objs w' p = objs w p)
     \<and> (\<forall>p k. p \<noteq> ob \<longrightarrow> count_list (bucket w' k) p = count_list (bucket w k) p)"

text \<open>An operation that, on a well-formed index, returns a well-formed index and keeps every key.\<close>

definition safe :: "(world \<Rightarrow> error + world) \<Rightarrow> bool" where
  "safe f \<longleftrightarrow> (\<forall>w. wf_index w \<longrightarrow> (\<exists>w'. f w = Inr w' \<and> wf_index w' \<and> keys_extend w w'))"

text \<open>The cell range that \<open>updateObject\<close> computes for an object from its current transform.\<close>

definition new_range :: "world \<Rightarrow> oid \<Rightarrow> int \<times> int \<times> int \<times> int" where
  "new_range w ob = cell_range w (computeAABB (objs w ob))"

text \<open>The cached range of the object is the range of its current transform.\<close>

definition settled :: "world \<Rightarrow> oid \<Rightarrow> bool" where
  "settled w ob \<longleftrightarrow>
     spatial (objs w ob) \<noteq> None
     \<and> \<not> range_differs (spatial_or_empty (objs w ob)) (new_range w ob)"

text \<open>
  The two loops that both branches of \<open>updateObjects\<close> share: \<open>f\<close> on every element,
  then \<open>g\<close> on every child of every container that is not static.
\<close>

definition visit ::
  "(oid \<Rightarrow> world \<Rightarrow> error + world) \<Rightarrow> (oid \<Rightarrow> world \<Rightarrow> error + world) \<Rightarrow> world \<Rightarrow> error + world" where
  "visit f g w =
     bindE (foldE f (elements w) w)
       (foldE (\<lambda>c w'. if \<not> is_static (conts w' c)
                       then foldE g (children (conts w' c)) w'
                       else Inr w') (containers w))"

text \<open>
  Registering is guarded when the object occupies no bucket at that moment: for \<open>add\<close>
  the object itself, for \<open>addContainer\<close> each of the (distinct) children, for a child added
  to a container the child, with at most one \<open>childAdded\<close> listener on the container.
  The other operations have no guard.
\<close>

fun guard :: "op \<Rightarrow> world \<Rightarrow> bool" where
  "guard (Add ob st) w = (hashes_of w ob = [])"
| "guard (AddContainer c st) w =
     (distinct (children (conts w c)) \<and> list_all (\<lambda>ob. hashes_of w ob = []) (children (conts w c)))"
| "guard (AddChild c ob) w =
     (hashes_of w ob = []
      \<and> length (filter (\<lambda>l. fst l = ''childAdded'') (listeners (conts w c))) \<le> 1)"
| "guard _ w = True"

text \<open>Every operation of the sequence is guarded in the state it runs in.\<close>

fun guarded :: "op list \<Rightarrow> world \<Rightarrow> bool" where
  "guarded [] w = True"
| "guarded (op # ops) w =
     (guard op w \<and> (case step op w of Inl e \<Rightarrow> False | Inr w' \<Rightarrow> guarded ops w'))"

text \<open>
  The listeners of \<open>childRemoved\<close> on a container are \<open>removed\<close> closures: the only
  ones \<open>addContainer\<close> subscribes to that event.
\<close>

definition removed_only :: "container \<Rightarrow> bool" where
  "removed_only k \<longleftrightarrow>
     list_all (\<lambda>l. fst l = ''childRemoved'' \<longrightarrow> (case snd l of Removed n \<Rightarrow> True | Added n \<Rightarrow> False))
       (listeners k)"

definition sound :: "world \<Rightarrow> bool" where
  "sound w \<longleftrightarrow> wf_index w \<and> consistent w \<and> (\<forall>c. removed_only (conts w c))"

text \<open>An operation that keeps an index sound.\<close>

definition keeps :: "(world \<Rightarrow> error + world) \<Rightarrow> bool" where
  "keeps f \<longleftrightarrow> (\<forall>w. sound w \<longrightarrow> (\<exists>w'. f w = Inr w' \<and> sound w'))"

text \<open>
  The objects on which the refresh pass calls \<open>updateObject\<close>: an element that is dirty
  (dirty-test mode) or not static (full-scan mode), and a child of a tracked container that
  is not static, if dirty in dirty-test mode.
\<close>

definition visited :: "world \<Rightarrow> oid \<Rightarrow> bool" where
  "visited w ob \<longleftrightarrow>
     (ob \<in> set (elements w)
        \<and> (if dirtyTest w then dirty (objs w ob) else \<not> staticObject (objs w ob)))
     \<or> (\<exists>c\<in>set (containers w). \<not> is_static (conts w c) \<and> ob \<in> set (children (conts w c))
           \<and> (dirtyTest w \<longrightarrow> dirty (objs w ob)))"

text \<open>
  In state \<open>t\<close> the object has been re-indexed for the transform it has in \<open>w\<close>: its cached
  range is current and, if the range had changed, its keys are the cells of the new range
  and it is once in each of their buckets and in no other.
\<close>

definition placed :: "world \<Rightarrow> oid \<Rightarrow> world \<Rightarrow> bool" where
  "placed w ob t \<longleftrightarrow>
     settled t ob \<and> AABB (objs t ob) = Some (computeAABB (objs w ob))
     \<and> (range_differs (spatial_or_empty (objs w ob)) (new_range w ob) \<longrightarrow>
          hashes_of t ob = cells (new_range w ob)
          \<and> (\<forall>k. count_list (bucket t k) ob = (if k \<in> set (cells (new_range w ob)) then 1 else 0)))"

definition relocating :: "world \<Rightarrow> oid \<Rightarrow> world \<Rightarrow> bool" where
  "relocating w ob t \<longleftrightarrow>
     wf_index t \<and> consistent t \<and> same_rest w t
     \<and> computeAABB (objs t ob) = computeAABB (objs w ob)
     \<and> (placed w ob t \<or> objs t ob = objs w ob)"

text \<open>
  The state in which \<open>cull\<close> finds every tracked object: the box has no negative side, and
  the object is indexed, that is, its cached AABB has no negative side, its cached range is
  the cell range of its cached AABB and it is in the bucket of every cell of that range.
\<close>

definition nonneg :: "aabb \<Rightarrow> bool" where
  "nonneg a \<longleftrightarrow> 0 \<le> aabb_width a \<and> 0 \<le> aabb_height a"

definition indexed :: "world \<Rightarrow> oid \<Rightarrow> bool" where
  "indexed w ob =
     (case AABB (objs w ob) of
        None \<Rightarrow> False
      | Some a \<Rightarrow>
          nonneg a \<and> \<not> range_differs (spatial_or_empty (objs w ob)) (cell_range w a)
          \<and> list_all (\<lambda>k. ob \<in> set (bucket w k)) (cells (cell_range w a)))"

definition tracked_objects :: "world \<Rightarrow> oid list" where
  "tracked_objects w = elements w @ concat (map (\<lambda>c. children (conts w c)) (containers w))"

definition cullable :: "world \<Rightarrow> bool" where
  "cullable w \<longleftrightarrow>
     wf_index w \<and> 0 < xSize w \<and> 0 < ySize w
     \<and> list_all (\<lambda>ob. indexed w ob \<and> nonneg (computeAABB (objs w ob))) (tracked_objects w)"

section \<open>Example scene\<close>

text \<open>
  A sprite with unit scale and no pivot whose local bounds start at the origin, a
  container, a rectangle, and a scene: cells of 100 by 100, object 0 at (10, 10) and
  object 1 at (150, 10), both 20 by 20, and object 2 the only child of container 0.
\<close>

definition rect :: "real \<Rightarrow> real \<Rightarrow> real \<Rightarrow> real \<Rightarrow> aabb" where
  "rect x y w h = \<lparr>aabb_x = x, aabb_y = y, aabb_width = w, aabb_height = h\<rparr>"

definition sprite :: "real \<Rightarrow> real \<Rightarrow> real \<Rightarrow> real \<Rightarrow> display_object" where
  "sprite x y w h =
     \<lparr>pos_x = x, pos_y = y, pivot_x = 0, pivot_y = 0, scale_x = 1, scale_y = 1,
      localBounds = rect 0 0 w h, AABB = None, spatial = None,
      dirty = False, staticObject = False, visible = True\<rparr>"

definition group :: "oid list \<Rightarrow> container" where
  "group obs = \<lparr>children = obs, ccull = None, listeners = []\<rparr>"

definition scene :: "oid \<Rightarrow> display_object" where
  "scene = (\<lambda>_. sprite 0 0 10 10)(0 := sprite 10 10 20 20, 1 := sprite 150 10 20 20,
                                  2 := sprite 10 10 20 20)"

definition groups :: "cid \<Rightarrow> container" where
  "groups = (\<lambda>_. group [])(0 := group [2])"

definition cell100 :: options where
  "cell100 = \<lparr>o_size = Some 100, o_xSize = None, o_ySize = None,
               o_simpleTest = None, o_dirtyTest = None\<rparr>"

definition world0 :: world where
  "world0 = constructor cell100 scene groups"

text \<open>The same scene under an index in full-scan mode (\<open>dirtyTest: false\<close>).\<close>

definition cell100_scan :: options where
  "cell100_scan = \<lparr>o_size = Some 100, o_xSize = None, o_ySize = None,
                    o_simpleTest = None, o_dirtyTest = Some False\<rparr>"

definition world1 :: world where
  "world1 = constructor cell100_scan scene groups"

text \<open>The state after a run of operations satisfies \<open>P\<close> (and the run raised nothing).\<close>

definition after :: "op list \<Rightarrow> world \<Rightarrow> (world \<Rightarrow> bool) \<Rightarrow> bool" where
  "after ops w P = (case run ops w of Inl e \<Rightarrow> False | Inr w' \<Rightarrow> P w')"

section \<open>Properties\<close>

text \<open>The definitions that evaluate a run on a concrete scene.\<close>

lemmas eval_defs =
  after_def run_def bindE_def world0_def world1_def constructor_def cell100_def cell100_scan_def
  scene_def groups_def
  sprite_def group_def rect_def add_obj_def remove_obj_def addContainer_def removeContainer_def
  track_child_def updateObject_def removeFromHash_def computeAABB_def getBounds_def cells_def
  range_differs_def set_range_def spatial_or_empty_def insert_key_def insert_obj_def upd_obj_def upd_cont_def
  upd_spatial_def empty_spatial_def splice_indexOf_def on_event_def off_event_def
  removeChild_def addChild_def emit_def hashes_of_def bucket_def entry_of_def cell_range_def
  invisible_def
  updateObjects_def update_if_dirty_def update_unless_static_def is_static_def
  query_def query_cell_def queryCallback_def queryCallbackAll_def qca_cell_def cull_def
  intersects_def setObject_def getBuckets_def getNumberOfBuckets_def Let_def

subsection \<open>Sequencing\<close>

declare split_paired_All [simp del] split_paired_Ex [simp del]

lemma bindE_Inr [simp]: "bindE (Inr a) f = f a"
  by (simp add: bindE_def)

lemma bindE_Inl [simp]: "bindE (Inl e) f = Inl e"
  by (simp add: bindE_def)

lemma bindE_eq_Inr: "bindE m f = Inr b \<longleftrightarrow> (\<exists>a. m = Inr a \<and> f a = Inr b)"
  by (cases m) simp_all

lemma foldE_append: "foldE f (xs @ ys) s = bindE (foldE f xs s) (foldE f ys)"
proof (induction xs arbitrary: s)
  case Nil
  show ?case by simp
next
  case (Cons x xs)
  show ?case by (cases "f x s") (simp_all add: Cons.IH)
qed

lemma foldE_inv:
  assumes "I s"
    and "\<And>x t. x \<in> set xs \<Longrightarrow> I t \<Longrightarrow> \<exists>t'. f x t = Inr t' \<and> I t'"
  shows "\<exists>s'. foldE f xs s = Inr s' \<and> I s'"
  using assms
proof (induction xs arbitrary: s)
  case Nil
  then show ?case by simp
next
  case (Cons x xs)
  from Cons.prems obtain t where t: "f x s = Inr t" "I t"
    by (meson list.set_intros(1))
  have "\<exists>s'. foldE f xs t = Inr s' \<and> I s'"
    by (rule Cons.IH [OF t(2)]) (simp add: Cons.prems(2))
  with t show ?case by simp
qed

lemma foldE_inv_post_aux:
  assumes step: "\<And>x t. x \<in> set zs \<Longrightarrow> I t \<Longrightarrow> \<exists>t'. f x t = Inr t' \<and> I t' \<and> Q x t'"
    and stable: "\<And>x y t t'. x \<in> set zs \<Longrightarrow> I t \<Longrightarrow> Q y t \<Longrightarrow> f x t = Inr t' \<Longrightarrow> Q y t'"
  shows "I s \<Longrightarrow> set xs \<subseteq> set zs \<Longrightarrow>
    \<exists>s'. foldE f xs s = Inr s' \<and> I s' \<and> (\<forall>x\<in>set xs. Q x s') \<and> (\<forall>y. Q y s \<longrightarrow> Q y s')"
proof (induction xs arbitrary: s)
  case Nil
  then show ?case by simp
next
  case (Cons x xs)
  have xz: "x \<in> set zs" and sub: "set xs \<subseteq> set zs"
    using Cons.prems(2) by simp_all
  from step [OF xz Cons.prems(1)] obtain t where t: "f x s = Inr t" "I t" "Q x t"
    by blast
  from Cons.IH [OF t(2) sub] obtain s' where s':
    "foldE f xs t = Inr s'" "I s'" "\<forall>x\<in>set xs. Q x s'" "\<forall>y. Q y t \<longrightarrow> Q y s'"
    by blast
  have 1: "foldE f (x # xs) s = Inr s'"
    using t(1) s'(1) by simp
  have 2: "\<forall>z\<in>set (x # xs). Q z s'"
    using s'(3) s'(4) t(3) by simp
  have 3: "\<forall>y. Q y s \<longrightarrow> Q y s'"
    using stable [OF xz Cons.prems(1) _ t(1)] s'(4) by blast
  from 1 2 3 s'(2) show ?case by blast
qed

lemma foldE_inv_post:
  assumes "I s"
    and "\<And>x t. x \<in> set xs \<Longrightarrow> I t \<Longrightarrow> \<exists>t'. f x t = Inr t' \<and> I t' \<and> Q x t'"
    and "\<And>x y t t'. x \<in> set xs \<Longrightarrow> I t \<Longrightarrow> Q y t \<Longrightarrow> f x t = Inr t' \<Longrightarrow> Q y t'"
  shows "\<exists>s'. foldE f xs s = Inr s' \<and> I s' \<and> (\<forall>x\<in>set xs. Q x s')"
proof -
  note aux = foldE_inv_post_aux [where zs = xs and I = I and Q = Q and f = f and s = s and xs = xs,
      OF _ _ assms(1) subset_refl]
  have "\<exists>s'. foldE f xs s = Inr s' \<and> I s' \<and> (\<forall>x\<in>set xs. Q x s') \<and> (\<forall>y. Q y s \<longrightarrow> Q y s')"
    by (rule aux; (rule assms(2) | rule assms(3)); assumption)
  then show ?thesis by blast
qed

subsection \<open>The cells of a range\<close>

lemma cells_product:
  "concat (map (\<lambda>y. map (\<lambda>x. (x, y)) X) Y) = map prod.swap (List.product Y X)"
  by (induction Y) (simp_all add: comp_def)

lemma distinct_cells: "distinct (cells b)"
proof -
  obtain xs ys xe ye where b: "b = (xs, ys, xe, ye)" by (cases b)
  show ?thesis
    unfolding b cells_def prod.case cells_product
    by (simp add: distinct_map distinct_product)
qed

lemma set_cells:
  "set (cells (xs, ys, xe, ye)) = {(x, y). xs \<le> x \<and> x \<le> xe \<and> ys \<le> y \<and> y \<le> ye}"
  by (auto simp: cells_def)

subsection \<open>Insertion\<close>

lemma bucket_insert_key:
  "bucket (insert_key ob k w) k' = (if k' = k then bucket w k @ [ob] else bucket w k')"
  by (cases "map_of (hash w) k")
     (simp_all add: insert_key_def insert_obj_def bucket_def entry_of_def upd_spatial_def upd_obj_def
        update_conv')

lemma objs_insert_key:
  "objs (insert_key ob k w) =
     (objs w)(ob := (objs w ob)\<lparr>spatial := map_option (\<lambda>s. s\<lparr>hashes := hashes s @ [k]\<rparr>) (spatial (objs w ob))\<rparr>)"
  by (cases "map_of (hash w) k")
     (simp_all add: insert_key_def insert_obj_def upd_spatial_def upd_obj_def)

lemma keys_insert_key:
  "map fst (hash (insert_key ob k w)) =
     (if k \<in> set (map fst (hash w)) then map fst (hash w) else map fst (hash w) @ [k])"
  by (cases "map_of (hash w) k")
     (simp_all add: insert_key_def insert_obj_def upd_spatial_def upd_obj_def update_keys)


lemma fold_insert_key_bucket:
  "bucket (fold (insert_key ob) ks w) k = bucket w k @ replicate (count_list ks k) ob"
proof (induction ks arbitrary: w)
  case Nil
  show ?case by simp
next
  case (Cons k0 ks)
  show ?case
    by (simp add: Cons.IH bucket_insert_key replicate_append_same)
qed

lemma fold_insert_key_objs:
  "objs (fold (insert_key ob) ks w) p =
     (if p = ob
      then (objs w ob)\<lparr>spatial := map_option (\<lambda>s. s\<lparr>hashes := hashes s @ ks\<rparr>) (spatial (objs w ob))\<rparr>
      else objs w p)"
proof (induction ks arbitrary: w)
  case Nil
  show ?case by (simp add: option.map_ident)
next
  case (Cons k0 ks)
  show ?case
    by (simp add: Cons.IH objs_insert_key option.map_comp o_def)
qed

subsection \<open>Frames\<close>

lemma same_rest_refl [simp]: "same_rest w w"
  by (simp add: same_rest_def)

lemma same_rest_trans: "same_rest w w1 \<Longrightarrow> same_rest w1 w2 \<Longrightarrow> same_rest w w2"
  by (simp add: same_rest_def)

lemma same_rest_upd_obj [simp]: "same_rest w (upd_obj ob f w)"
  by (simp add: same_rest_def upd_obj_def)

lemma same_rest_hash [simp]: "same_rest w (w\<lparr>hash := h\<rparr>)"
  by (simp add: same_rest_def)

lemma same_rest_insert_key: "same_rest w (insert_key ob k w)"
  by (cases "map_of (hash w) k")
     (simp_all add: same_rest_def insert_key_def insert_obj_def upd_spatial_def upd_obj_def)

lemma same_rest_fold_insert_key: "same_rest w (fold (insert_key ob) ks w)"
proof (induction ks arbitrary: w)
  case Nil
  show ?case by simp
next
  case (Cons k0 ks)
  show ?case
    using same_rest_trans [OF same_rest_insert_key Cons.IH] by simp
qed

lemma keys_extend_refl [simp]: "keys_extend w w"
  by (simp add: keys_extend_def)

lemma keys_extend_trans: "keys_extend w w1 \<Longrightarrow> keys_extend w1 w2 \<Longrightarrow> keys_extend w w2"
  by (auto simp: keys_extend_def)

lemma keys_extend_same: "map fst (hash w') = map fst (hash w) \<Longrightarrow> keys_extend w w'"
  by (simp add: keys_extend_def)

lemma keys_extend_insert_key: "keys_extend w (insert_key ob k w)"
  by (simp add: keys_extend_def keys_insert_key)

lemma keys_extend_fold_insert_key: "keys_extend w (fold (insert_key ob) ks w)"
proof (induction ks arbitrary: w)
  case Nil
  show ?case by simp
next
  case (Cons k0 ks)
  show ?case
    using keys_extend_trans [OF keys_extend_insert_key Cons.IH] by simp
qed

lemma hash_upd_obj [simp]: "hash (upd_obj ob f w) = hash w"
  by (simp add: upd_obj_def)

lemma bucket_upd_obj [simp]: "bucket (upd_obj ob f w) k = bucket w k"
  by (simp add: bucket_def)

lemma objs_upd_obj [simp]: "objs (upd_obj ob f w) = (objs w)(ob := f (objs w ob))"
  by (simp add: upd_obj_def)

lemma sizes_upd_obj [simp]:
  "xSize (upd_obj ob f w) = xSize w" "ySize (upd_obj ob f w) = ySize w"
  by (simp_all add: upd_obj_def)

lemma cell_range_cong: "xSize w' = xSize w \<Longrightarrow> ySize w' = ySize w \<Longrightarrow> cell_range w' a = cell_range w a"
  by (simp add: cell_range_def)

subsection \<open>removeFromHash\<close>

lemma count_list_remove1:
  "count_list (remove1 x l) y = (if x = y \<and> x \<in> set l then count_list l y - 1 else count_list l y)"
  by (induction l) auto

lemma entry_of_update: "entry_of (AList.update k v h) k' = (if k' = k then v else entry_of h k')"
  by (simp add: entry_of_def update_conv')

lemma entry_of_mem: "ob \<in> set (entry_of h k) \<Longrightarrow> \<exists>l. map_of h k = Some l \<and> ob \<in> set l"
  by (cases "map_of h k") (simp_all add: entry_of_def)

lemma purge_ok:
  "distinct ks \<Longrightarrow> \<forall>k\<in>set ks. ob \<in> set (entry_of h k) \<Longrightarrow>
    \<exists>h'. purge ob ks h = Inr h' \<and> map fst h' = map fst h \<and>
         (\<forall>k. entry_of h' k = (if k \<in> set ks then remove1 ob (entry_of h k) else entry_of h k))"
proof (induction ks arbitrary: h)
  case Nil
  show ?case by simp
next
  case (Cons k ks)
  have "ob \<in> set (entry_of h k)" using Cons.prems(2) by simp
  then obtain l where l: "map_of h k = Some l" "ob \<in> set l"
    using entry_of_mem by blast
  define h1 where "h1 = AList.update k (splice_indexOf ob l) h"
  have sp: "splice_indexOf ob l = remove1 ob l"
    using l(2) by (simp add: splice_indexOf_def)
  have e1: "entry_of h1 k' = (if k' = k then remove1 ob l else entry_of h k')" for k'
    by (simp add: h1_def entry_of_update sp)
  have "k \<in> fst ` set h"
    using l(1) by (metis map_of_SomeD fst_conv image_eqI)
  then have keys1: "map fst h1 = map fst h"
    by (simp add: h1_def update_keys)
  have dk: "k \<notin> set ks" and dks: "distinct ks"
    using Cons.prems(1) by simp_all
  have pre: "\<forall>k'\<in>set ks. ob \<in> set (entry_of h1 k')"
    using Cons.prems(2) dk by (auto simp: e1)
  from Cons.IH [OF dks pre] obtain h' where h':
    "purge ob ks h1 = Inr h'" "map fst h' = map fst h1"
    "\<forall>k'. entry_of h' k' = (if k' \<in> set ks then remove1 ob (entry_of h1 k') else entry_of h1 k')"
    by blast
  have 1: "purge ob (k # ks) h = Inr h'"
    using l(1) h'(1) by (simp add: h1_def)
  have el: "entry_of h k = l"
    using l(1) by (simp add: entry_of_def)
  have e2: "entry_of h' k' = (if k' \<in> set ks then remove1 ob (entry_of h1 k') else entry_of h1 k')" for k'
    using h'(3) by blast
  have 2: "entry_of h' k' = (if k' \<in> set (k # ks) then remove1 ob (entry_of h k') else entry_of h k')" for k'
    using dk by (auto simp: e2 e1 el)
  from 1 2 h'(2) keys1 show ?case by auto
qed

lemma spatial_same_upd: "spatial d = x \<Longrightarrow> d\<lparr>spatial := x\<rparr> = d"
  by auto

lemma removeFromHash_ok:
  assumes "distinct (hashes_of w ob)" and "\<forall>k\<in>set (hashes_of w ob). ob \<in> set (bucket w k)"
  shows "\<exists>w'. removeFromHash ob w = Inr w' \<and> same_rest w w' \<and> map fst (hash w') = map fst (hash w)
     \<and> (\<forall>k. bucket w' k = (if k \<in> set (hashes_of w ob) then remove1 ob (bucket w k) else bucket w k))
     \<and> objs w' = (objs w)(ob := (objs w ob)\<lparr>spatial := map_option (\<lambda>s. s\<lparr>hashes := []\<rparr>) (spatial (objs w ob))\<rparr>)"
proof (cases "spatial (objs w ob)")
  case None
  then have "hashes_of w ob = []" by (simp add: hashes_of_def)
  moreover have "removeFromHash ob w = Inr w" using None by (simp add: removeFromHash_def)
  moreover have "objs w = (objs w)(ob := (objs w ob)\<lparr>spatial := map_option (\<lambda>s. s\<lparr>hashes := []\<rparr>) (spatial (objs w ob))\<rparr>)"
    using None by (simp add: spatial_same_upd)
  ultimately show ?thesis by simp
next
  case (Some sp)
  then have hs: "hashes_of w ob = hashes sp" by (simp add: hashes_of_def)
  have "distinct (rev (hashes sp))" using assms(1) hs by simp
  moreover have "\<forall>k\<in>set (rev (hashes sp)). ob \<in> set (entry_of (hash w) k)"
    using assms(2) hs by (simp add: bucket_def)
  ultimately obtain h' where h': "purge ob (rev (hashes sp)) (hash w) = Inr h'"
    "map fst h' = map fst (hash w)"
    "\<forall>k. entry_of h' k = (if k \<in> set (rev (hashes sp)) then remove1 ob (entry_of (hash w) k) else entry_of (hash w) k)"
    using purge_ok by blast
  define w' where "w' = upd_spatial ob (\<lambda>s. s\<lparr>hashes := []\<rparr>) (w\<lparr>hash := h'\<rparr>)"
  have 1: "removeFromHash ob w = Inr w'"
    using Some h'(1) by (simp add: removeFromHash_def w'_def)
  have 2: "same_rest w w'"
    by (simp add: w'_def upd_spatial_def same_rest_def upd_obj_def)
  have 3: "hash w' = h'"
    by (simp add: w'_def upd_spatial_def)
  have 4: "\<forall>k. bucket w' k = (if k \<in> set (hashes_of w ob) then remove1 ob (bucket w k) else bucket w k)"
    using h'(3) by (simp add: bucket_def 3 hs)
  have 5: "objs w' = (objs w)(ob := (objs w ob)\<lparr>spatial := map_option (\<lambda>s. s\<lparr>hashes := []\<rparr>) (spatial (objs w ob))\<rparr>)"
    by (simp add: w'_def upd_spatial_def)
  from 1 2 3 4 5 h'(2) show ?thesis by simp
qed


subsection \<open>updateObject\<close>

lemma hashes_same_upd: "hashes s = x \<Longrightarrow> s\<lparr>hashes := x\<rparr> = s"
  by auto

lemma distinct_count_list: "distinct xs \<Longrightarrow> count_list xs x = (if x \<in> set xs then 1 else 0)"
  by (induction xs) auto

lemma hash_set_range [simp]: "hash (set_range ob b w) = hash w"
  by (cases b) (simp add: set_range_def upd_spatial_def)

lemma bucket_set_range [simp]: "bucket (set_range ob b w) k = bucket w k"
  by (simp add: bucket_def)

lemma same_rest_set_range [simp]: "same_rest w (set_range ob b w)"
  by (cases b) (simp add: set_range_def upd_spatial_def)

lemma objs_set_range:
  "objs (set_range ob (xs, ys, xe, ye) w) =
     (objs w)(ob := (objs w ob)\<lparr>spatial := map_option
        (\<lambda>s. s\<lparr>xStart := Some xs, yStart := Some ys, xEnd := Some xe, yEnd := Some ye\<rparr>)
        (spatial (objs w ob))\<rparr>)"
  by (simp add: set_range_def upd_spatial_def)

lemma hashes_of_spatial_or_empty: "hashes_of w ob = hashes (spatial_or_empty (objs w ob))"
  by (simp add: hashes_of_def spatial_or_empty_def empty_spatial_def split: option.split)

lemma updateObject_ok:
  assumes sz: "xSize w \<noteq> 0" "ySize w \<noteq> 0"
    and d: "distinct (hashes_of w ob)"
    and m: "\<forall>k\<in>set (hashes_of w ob). ob \<in> set (bucket w k)"
    and a: "a = computeAABB (objs w ob)"
    and sp: "sp = spatial_or_empty (objs w ob)"
    and b: "b = cell_range w a"
  shows "\<exists>w' sp'. updateObject ob w = Inr w' \<and> same_rest w w' \<and> keys_extend w w'
      \<and> objs w' = (objs w)(ob := (objs w ob)\<lparr>AABB := Some a, spatial := Some sp'\<rparr>)
      \<and> \<not> range_differs sp' b
      \<and> (if range_differs sp b
         then hashes sp' = cells b
              \<and> (\<forall>k. bucket w' k =
                    (if k \<in> set (hashes_of w ob) then remove1 ob (bucket w k) else bucket w k)
                    @ (if k \<in> set (cells b) then [ob] else []))
         else sp' = sp \<and> hash w' = hash w)"
proof -
  define w1 where "w1 = upd_obj ob (\<lambda>d. d\<lparr>AABB := Some a, spatial := Some sp\<rparr>) w"
  have hs: "hashes_of w ob = hashes sp"
    by (simp add: sp hashes_of_spatial_or_empty)
  have gb: "getBounds w1 a = Inr b"
    using sz by (simp add: getBounds_def w1_def b cell_range_def)
  have unf: "updateObject ob w =
      (if range_differs sp b
       then bindE (if hashes sp \<noteq> [] then removeFromHash ob w1 else Inr w1)
              (\<lambda>w2. Inr (set_range ob b (fold (insert_key ob) (cells b) w2)))
       else Inr w1)"
    unfolding updateObject_def Let_def a [symmetric] sp [symmetric] w1_def [symmetric]
    by (simp add: gb)
  have o1: "objs w1 = (objs w)(ob := (objs w ob)\<lparr>AABB := Some a, spatial := Some sp\<rparr>)"
    by (simp add: w1_def)
  show ?thesis
  proof (cases "range_differs sp b")
    case False
    have "updateObject ob w = Inr w1" using False by (simp add: unf)
    moreover have "same_rest w w1" "keys_extend w w1" "hash w1 = hash w"
      by (simp_all add: w1_def keys_extend_def)
    ultimately show ?thesis using False o1 by auto
  next
    case True
    have "\<exists>w2. (if hashes sp \<noteq> [] then removeFromHash ob w1 else Inr w1) = Inr w2
        \<and> same_rest w w2 \<and> map fst (hash w2) = map fst (hash w)
        \<and> (\<forall>k. bucket w2 k = (if k \<in> set (hashes sp) then remove1 ob (bucket w k) else bucket w k))
        \<and> objs w2 = (objs w)(ob := (objs w ob)\<lparr>AABB := Some a, spatial := Some (sp\<lparr>hashes := []\<rparr>)\<rparr>)"
    proof (cases "hashes sp = []")
      case True
      then have e: "sp\<lparr>hashes := []\<rparr> = sp" by (simp add: hashes_same_upd)
      show ?thesis using True o1 by (simp add: w1_def e)
    next
      case False
      have h1: "hashes_of w1 ob = hashes sp"
        by (simp add: hashes_of_def w1_def)
      have "distinct (hashes_of w1 ob)" using d hs h1 by simp
      moreover have "\<forall>k\<in>set (hashes_of w1 ob). ob \<in> set (bucket w1 k)"
        using m hs h1 by (simp add: w1_def)
      ultimately obtain w2 where w2: "removeFromHash ob w1 = Inr w2" "same_rest w1 w2"
        "map fst (hash w2) = map fst (hash w1)"
        "\<forall>k. bucket w2 k = (if k \<in> set (hashes_of w1 ob) then remove1 ob (bucket w1 k) else bucket w1 k)"
        "objs w2 = (objs w1)(ob := (objs w1 ob)\<lparr>spatial := map_option (\<lambda>s. s\<lparr>hashes := []\<rparr>) (spatial (objs w1 ob))\<rparr>)"
        using removeFromHash_ok [of w1 ob] by blast
      have "same_rest w w2"
        using same_rest_trans [OF _ w2(2), of w] by (simp add: w1_def)
      moreover have "map fst (hash w2) = map fst (hash w)"
        using w2(3) by (simp add: w1_def)
      moreover have "\<forall>k. bucket w2 k = (if k \<in> set (hashes sp) then remove1 ob (bucket w k) else bucket w k)"
        using w2(4) by (simp add: h1) (simp add: w1_def)
      moreover have "objs w2 = (objs w)(ob := (objs w ob)\<lparr>AABB := Some a, spatial := Some (sp\<lparr>hashes := []\<rparr>)\<rparr>)"
        using w2(5) by (simp add: o1)
      ultimately show ?thesis using False w2(1) by simp
    qed
    then obtain w2 where w2: "(if hashes sp \<noteq> [] then removeFromHash ob w1 else Inr w1) = Inr w2"
      "same_rest w w2" "map fst (hash w2) = map fst (hash w)"
      "\<forall>k. bucket w2 k = (if k \<in> set (hashes sp) then remove1 ob (bucket w k) else bucket w k)"
      "objs w2 = (objs w)(ob := (objs w ob)\<lparr>AABB := Some a, spatial := Some (sp\<lparr>hashes := []\<rparr>)\<rparr>)"
      by blast
    define w3 where "w3 = fold (insert_key ob) (cells b) w2"
    define w' where "w' = set_range ob b w3"
    obtain xs ys xe ye where bb: "b = (xs, ys, xe, ye)" by (cases b)
    define sp' where "sp' = sp\<lparr>hashes := cells b, xStart := Some xs, yStart := Some ys,
        xEnd := Some xe, yEnd := Some ye\<rparr>"
    have 1: "updateObject ob w = Inr w'"
      using True w2(1) by (simp add: unf w3_def w'_def)
    have 2: "same_rest w w'"
      unfolding w'_def w3_def
      using same_rest_trans [OF w2(2) same_rest_trans [OF same_rest_fold_insert_key same_rest_set_range]] .
    have "keys_extend w w2" using w2(3) by (rule keys_extend_same)
    then have "keys_extend w w3"
      unfolding w3_def using keys_extend_fold_insert_key keys_extend_trans by blast
    then have 3: "keys_extend w w'"
      by (simp add: w'_def keys_extend_def)
    have 4: "objs w' = (objs w)(ob := (objs w ob)\<lparr>AABB := Some a, spatial := Some sp'\<rparr>)"
      by (simp add: w'_def w3_def bb objs_set_range fold_insert_key_objs w2(5) sp'_def fun_eq_iff)
    have 5: "\<not> range_differs sp' b"
      by (simp add: range_differs_def bb sp'_def)
    have 6: "hashes sp' = cells b"
      by (simp add: sp'_def)
    have 7: "\<forall>k. bucket w' k =
        (if k \<in> set (hashes_of w ob) then remove1 ob (bucket w k) else bucket w k)
        @ (if k \<in> set (cells b) then [ob] else [])"
      using w2(4)
      by (simp add: w'_def w3_def fold_insert_key_bucket hs distinct_count_list [OF distinct_cells])
    from 1 2 3 4 5 6 7 True show ?thesis by auto
  qed
qed


subsection \<open>Effects on the invariant\<close>

lemma others_same_refl [simp]: "others_same ob w w"
  by (simp add: others_same_def)

lemma others_same_trans: "others_same ob w w1 \<Longrightarrow> others_same ob w1 w2 \<Longrightarrow> others_same ob w w2"
  unfolding others_same_def
  using same_rest_trans keys_extend_trans by (metis (no_types, lifting))

lemma others_same_mem:
  "others_same ob w w' \<Longrightarrow> p \<noteq> ob \<Longrightarrow> p \<in> set (bucket w' k) \<longleftrightarrow> p \<in> set (bucket w k)"
  unfolding others_same_def using count_list_0_iff by metis

lemma others_same_objs: "others_same ob w w' \<Longrightarrow> p \<noteq> ob \<Longrightarrow> objs w' p = objs w p"
  by (simp add: others_same_def)

lemma others_same_hashes_of: "others_same ob w w' \<Longrightarrow> p \<noteq> ob \<Longrightarrow> hashes_of w' p = hashes_of w p"
  by (simp add: others_same_def hashes_of_def)

lemma others_same_rest: "others_same ob w w' \<Longrightarrow> same_rest w w'"
  by (simp add: others_same_def)

lemma others_same_keys: "others_same ob w w' \<Longrightarrow> keys_extend w w'"
  by (simp add: others_same_def)

lemma wf_indexD:
  assumes "wf_index w"
  shows "xSize w \<noteq> 0" and "ySize w \<noteq> 0" and "distinct (hashes_of w ob)"
    and "k \<in> set (hashes_of w ob) \<Longrightarrow> ob \<in> set (bucket w k)"
    and "ob \<in> set (bucket w k) \<Longrightarrow> AABB (objs w ob) \<noteq> None"
  using assms unfolding wf_index_def by blast+

lemma wf_index_others:
  assumes "wf_index w" and "others_same ob w w'"
    and "distinct (hashes_of w' ob)"
    and "\<And>k. k \<in> set (hashes_of w' ob) \<Longrightarrow> ob \<in> set (bucket w' k)"
    and "\<And>k. ob \<in> set (bucket w' k) \<Longrightarrow> AABB (objs w' ob) \<noteq> None"
  shows "wf_index w'"
proof -
  have sz: "xSize w' \<noteq> 0" "ySize w' \<noteq> 0"
    using wf_indexD(1,2) [OF assms(1)] assms(2) by (simp_all add: others_same_def same_rest_def)
  have 1: "distinct (hashes_of w' p)" for p
    using wf_indexD(3) [OF assms(1), of p] assms(3) others_same_hashes_of [OF assms(2), of p]
    by (cases "p = ob") simp_all
  have 2: "p \<in> set (bucket w' k)" if "k \<in> set (hashes_of w' p)" for p k
  proof (cases "p = ob")
    case True
    then show ?thesis using that assms(4) by simp
  next
    case False
    then have "k \<in> set (hashes_of w p)"
      using that others_same_hashes_of [OF assms(2)] by simp
    then have "p \<in> set (bucket w k)"
      using wf_indexD(4) [OF assms(1)] by blast
    then show ?thesis
      using others_same_mem [OF assms(2) False] by simp
  qed
  have 3: "AABB (objs w' p) \<noteq> None" if "p \<in> set (bucket w' k)" for p k
  proof (cases "p = ob")
    case True
    then show ?thesis using that assms(5) by simp
  next
    case False
    then have "p \<in> set (bucket w k)"
      using that others_same_mem [OF assms(2) False] by simp
    then have "AABB (objs w p) \<noteq> None"
      using wf_indexD(5) [OF assms(1)] by blast
    then show ?thesis
      using others_same_objs [OF assms(2) False] by simp
  qed
  show ?thesis
    unfolding wf_index_def using sz 1 2 3 by blast
qed

lemma count_list_append1: "count_list (xs @ [x]) y = count_list xs y + (if x = y then 1 else 0)"
  by (induction xs) auto

lemma removeFromHash_effect:
  assumes "wf_index w"
  shows "\<exists>w'. removeFromHash ob w = Inr w' \<and> wf_index w' \<and> others_same ob w w'
     \<and> hash w' = hash w' \<and> map fst (hash w') = map fst (hash w)
     \<and> hashes_of w' ob = []
     \<and> objs w' ob = (objs w ob)\<lparr>spatial := spatial (objs w' ob)\<rparr>
     \<and> (\<forall>k. count_list (bucket w' k) ob =
            count_list (bucket w k) ob - (if k \<in> set (hashes_of w ob) then 1 else 0))"
proof -
  have d: "distinct (hashes_of w ob)" and m: "\<forall>k\<in>set (hashes_of w ob). ob \<in> set (bucket w k)"
    using wf_indexD(3,4) [OF assms] by blast+
  from removeFromHash_ok [OF d m] obtain w' where w':
    "removeFromHash ob w = Inr w'" "same_rest w w'" "map fst (hash w') = map fst (hash w)"
    "\<forall>k. bucket w' k = (if k \<in> set (hashes_of w ob) then remove1 ob (bucket w k) else bucket w k)"
    "objs w' = (objs w)(ob := (objs w ob)\<lparr>spatial := map_option (\<lambda>s. s\<lparr>hashes := []\<rparr>) (spatial (objs w ob))\<rparr>)"
    by blast
  have b: "bucket w' k = (if k \<in> set (hashes_of w ob) then remove1 ob (bucket w k) else bucket w k)" for k
    using w'(4) by blast
  have h: "hashes_of w' ob = []"
    by (simp add: hashes_of_def w'(5) split: option.split)
  have os: "others_same ob w w'"
    unfolding others_same_def
    by (simp add: w'(2) keys_extend_same [OF w'(3)] w'(5) b count_list_remove1)
  have c: "\<forall>k. count_list (bucket w' k) ob =
            count_list (bucket w k) ob - (if k \<in> set (hashes_of w ob) then 1 else 0)"
    using m by (simp add: b count_list_remove1)
  have o: "objs w' ob = (objs w ob)\<lparr>spatial := spatial (objs w' ob)\<rparr>"
    by (simp add: w'(5))
  have a: "AABB (objs w' ob) \<noteq> None" if "ob \<in> set (bucket w' k)" for k
  proof -
    have "ob \<in> set (bucket w k)"
      using that by (simp add: b split: if_splits) (meson notin_set_remove1)
    then have "AABB (objs w ob) \<noteq> None"
      using wf_indexD(5) [OF assms] by blast
    then show ?thesis by (simp add: w'(5))
  qed
  have wf: "wf_index w'"
    by (rule wf_index_others [OF assms os]) (simp_all add: h a)
  from w'(1) wf os h o c w'(3) show ?thesis by simp
qed


lemma updateObject_effect:
  assumes "wf_index w"
    and b: "b = cell_range w (computeAABB (objs w ob))"
  shows "\<exists>w'. updateObject ob w = Inr w' \<and> wf_index w' \<and> others_same ob w w'
     \<and> objs w' ob = (objs w ob)\<lparr>AABB := Some (computeAABB (objs w ob)), spatial := spatial (objs w' ob)\<rparr>
     \<and> spatial (objs w' ob) \<noteq> None
     \<and> \<not> range_differs (spatial_or_empty (objs w' ob)) b
     \<and> (range_differs (spatial_or_empty (objs w ob)) b \<longrightarrow>
          hashes_of w' ob = cells b
          \<and> (\<forall>k. count_list (bucket w' k) ob =
                count_list (bucket w k) ob - (if k \<in> set (hashes_of w ob) then 1 else 0)
                + (if k \<in> set (cells b) then 1 else 0)))
     \<and> (\<not> range_differs (spatial_or_empty (objs w ob)) b \<longrightarrow>
          hash w' = hash w \<and> spatial (objs w' ob) = Some (spatial_or_empty (objs w ob)))"
proof -
  define a where "a = computeAABB (objs w ob)"
  define sp where "sp = spatial_or_empty (objs w ob)"
  have ba: "b = cell_range w a" by (simp add: b a_def)
  have d: "distinct (hashes_of w ob)" and m: "\<forall>k\<in>set (hashes_of w ob). ob \<in> set (bucket w k)"
    using wf_indexD(3,4) [OF assms(1)] by blast+
  from updateObject_ok [OF wf_indexD(1,2) [OF assms(1)] d m a_def sp_def ba]
  obtain w' sp' where w': "updateObject ob w = Inr w'" "same_rest w w'" "keys_extend w w'"
    "objs w' = (objs w)(ob := (objs w ob)\<lparr>AABB := Some a, spatial := Some sp'\<rparr>)"
    "\<not> range_differs sp' b"
    "if range_differs sp b
     then hashes sp' = cells b
          \<and> (\<forall>k. bucket w' k =
                (if k \<in> set (hashes_of w ob) then remove1 ob (bucket w k) else bucket w k)
                @ (if k \<in> set (cells b) then [ob] else []))
     else sp' = sp \<and> hash w' = hash w"
    by blast
  have hs: "hashes_of w ob = hashes sp"
    by (simp add: sp_def hashes_of_spatial_or_empty)
  have h': "hashes_of w' ob = hashes sp'"
    by (simp add: hashes_of_def w'(4))
  have s': "spatial_or_empty (objs w' ob) = sp'"
    by (simp add: spatial_or_empty_def w'(4))
  have o: "objs w' ob = (objs w ob)\<lparr>AABB := Some a, spatial := spatial (objs w' ob)\<rparr>"
    by (simp add: w'(4))
  have ne: "spatial (objs w' ob) \<noteq> None"
    by (simp add: w'(4))
  have bk: "bucket w' k = (if range_differs sp b
      then (if k \<in> set (hashes_of w ob) then remove1 ob (bucket w k) else bucket w k)
           @ (if k \<in> set (cells b) then [ob] else [])
      else bucket w k)" for k
  proof (cases "range_differs sp b")
    case True
    then show ?thesis using w'(6) by simp
  next
    case False
    then have "hash w' = hash w" using w'(6) by simp
    then show ?thesis using False by (simp add: bucket_def)
  qed
  have cnt_other: "count_list (bucket w' k) p = count_list (bucket w k) p" if "p \<noteq> ob" for p k
    using that by (simp add: bk count_list_remove1)
  have os: "others_same ob w w'"
    unfolding others_same_def using w'(2,3) cnt_other by (simp add: w'(4))
  have cnt_own: "count_list (bucket w' k) ob =
      count_list (bucket w k) ob - (if k \<in> set (hashes_of w ob) then 1 else 0)
      + (if k \<in> set (cells b) then 1 else 0)" if "range_differs sp b" for k
    using that m by (simp add: bk count_list_remove1)
  have dh: "distinct (hashes_of w' ob)"
    using w'(6) d hs by (auto simp: h' distinct_cells split: if_splits)
  have mem: "ob \<in> set (bucket w' k)" if "k \<in> set (hashes_of w' ob)" for k
  proof (cases "range_differs sp b")
    case True
    then have "k \<in> set (cells b)" using that w'(6) by (simp add: h')
    then show ?thesis using True by (simp add: bk)
  next
    case False
    then have "k \<in> set (hashes_of w ob)" using that w'(6) by (simp add: h' hs)
    then show ?thesis using False m by (simp add: bk)
  qed
  have wf: "wf_index w'"
    by (rule wf_index_others [OF assms(1) os dh mem]) (simp_all add: w'(4))
  have diff: "hashes_of w' ob = cells b" if "range_differs sp b"
    using that w'(6) by (simp add: h')
  have same: "hash w' = hash w \<and> spatial (objs w' ob) = Some sp" if "\<not> range_differs sp b"
    using that w'(6) by (simp add: w'(4))
  have own: "\<forall>k. count_list (bucket w' k) ob =
      count_list (bucket w k) ob - (if k \<in> set (hashes_of w ob) then 1 else 0)
      + (if k \<in> set (cells b) then 1 else 0)" if "range_differs sp b"
    using cnt_own [OF that] by blast
  have nd: "\<not> range_differs (spatial_or_empty (objs w' ob)) b"
    using w'(5) by (simp add: s')
  show ?thesis
    unfolding a_def [symmetric] sp_def [symmetric]
    by (intro exI [of _ w'] conjI impI w'(1) wf os o ne nd diff own)
       (simp_all add: same)
qed

subsection \<open>Safe operations\<close>

lemma safeI:
  "(\<And>w. wf_index w \<Longrightarrow> \<exists>w'. f w = Inr w' \<and> wf_index w' \<and> keys_extend w w') \<Longrightarrow> safe f"
  by (simp add: safe_def)

lemma safeD: "safe f \<Longrightarrow> wf_index w \<Longrightarrow> \<exists>w'. f w = Inr w' \<and> wf_index w' \<and> keys_extend w w'"
  by (simp add: safe_def)

lemma safe_bindE:
  assumes "safe f" and "safe g"
  shows "safe (\<lambda>w. bindE (f w) g)"
proof (rule safeI)
  fix w assume "wf_index w"
  from safeD [OF assms(1) this] obtain w1 where w1: "f w = Inr w1" "wf_index w1" "keys_extend w w1"
    by blast
  from safeD [OF assms(2) w1(2)] obtain w2 where w2: "g w1 = Inr w2" "wf_index w2" "keys_extend w1 w2"
    by blast
  show "\<exists>w'. bindE (f w) g = Inr w' \<and> wf_index w' \<and> keys_extend w w'"
    using w1(1) w2(1,2) keys_extend_trans [OF w1(3) w2(3)] by simp
qed

lemma safe_foldE:
  assumes "\<And>x. x \<in> set xs \<Longrightarrow> safe (f x)"
  shows "safe (foldE f xs)"
proof (rule safeI)
  fix w assume wf: "wf_index w"
  have "\<exists>w'. foldE f xs w = Inr w' \<and> (wf_index w' \<and> keys_extend w w')"
  proof (rule foldE_inv [where I = "\<lambda>t. wf_index t \<and> keys_extend w t"])
    show "wf_index w \<and> keys_extend w w" using wf by simp
  next
    fix x t assume x: "x \<in> set xs" and t: "wf_index t \<and> keys_extend w t"
    from safeD [OF assms [OF x]] t obtain t' where "f x t = Inr t'" "wf_index t'" "keys_extend t t'"
      by blast
    then show "\<exists>t'. f x t = Inr t' \<and> wf_index t' \<and> keys_extend w t'"
      using t keys_extend_trans by blast
  qed
  then show "\<exists>w'. foldE f xs w = Inr w' \<and> wf_index w' \<and> keys_extend w w'" by simp
qed

lemma safe_dep:
  assumes "\<And>v. safe (f v)"
  shows "safe (\<lambda>w. f (g w) w)"
  using assms by (simp add: safe_def)

lemma safe_if:
  assumes "safe f" and "safe g"
  shows "safe (\<lambda>w. if c w then f w else g w)"
  using assms by (simp add: safe_def)

lemma safe_Inr: "safe Inr"
  by (simp add: safe_def)

lemma safe_pure:
  assumes "\<And>w. wf_index w \<Longrightarrow> wf_index (g w) \<and> keys_extend w (g w)"
  shows "safe (\<lambda>w. Inr (g w))"
  using assms by (simp add: safe_def)

lemma safe_updateObject: "safe (updateObject ob)"
proof (rule safeI)
  fix w assume "wf_index w"
  from updateObject_effect [OF this refl, of ob] obtain w' where
    "updateObject ob w = Inr w'" "wf_index w'" "others_same ob w w'"
    by blast
  then show "\<exists>w'. updateObject ob w = Inr w' \<and> wf_index w' \<and> keys_extend w w'"
    using others_same_keys by blast
qed

lemma safe_removeFromHash: "safe (removeFromHash ob)"
proof (rule safeI)
  fix w assume "wf_index w"
  from removeFromHash_effect [OF this, of ob] obtain w' where
    "removeFromHash ob w = Inr w'" "wf_index w'" "others_same ob w w'"
    by blast
  then show "\<exists>w'. removeFromHash ob w = Inr w' \<and> wf_index w' \<and> keys_extend w w'"
    using others_same_keys by blast
qed

subsection \<open>Every operation is safe\<close>

lemma wf_index_inert:
  assumes "wf_index w" and "xSize w' = xSize w" and "ySize w' = ySize w" and "hash w' = hash w"
    and "\<And>p. spatial (objs w' p) = spatial (objs w p) \<or> hashes_of w' p = []"
    and "\<And>p. AABB (objs w p) \<noteq> None \<Longrightarrow> AABB (objs w' p) \<noteq> None"
  shows "wf_index w'"
proof -
  have h: "hashes_of w' p = hashes_of w p \<or> hashes_of w' p = []" for p
    using assms(5) [of p] by (auto simp: hashes_of_def)
  have b: "bucket w' k = bucket w k" for k
    by (simp add: bucket_def assms(4))
  have 1: "distinct (hashes_of w' p)" for p
    using h [of p] wf_indexD(3) [OF assms(1), of p] by auto
  have 2: "p \<in> set (bucket w' k)" if "k \<in> set (hashes_of w' p)" for p k
    using h [of p] that wf_indexD(4) [OF assms(1), of k p] by (auto simp: b)
  have 3: "AABB (objs w' p) \<noteq> None" if "p \<in> set (bucket w' k)" for p k
    using that wf_indexD(5) [OF assms(1), of p k] assms(6) by (simp add: b)
  show ?thesis
    unfolding wf_index_def
    using wf_indexD(1,2) [OF assms(1)] assms(2,3) 1 2 3 by auto
qed

lemma safe_inert:
  assumes "\<And>w. xSize (g w) = xSize w \<and> ySize (g w) = ySize w \<and> hash (g w) = hash w"
    and "\<And>w p. spatial (objs (g w) p) = spatial (objs w p) \<or> hashes_of (g w) p = []"
    and "\<And>w p. AABB (objs w p) \<noteq> None \<Longrightarrow> AABB (objs (g w) p) \<noteq> None"
  shows "safe (\<lambda>w. Inr (g w))"
proof (rule safe_pure)
  fix w assume wf: "wf_index w"
  have "wf_index (g w)"
    by (rule wf_index_inert [OF wf]) (use assms in auto)
  moreover have "keys_extend w (g w)"
    by (rule keys_extend_same) (simp add: assms(1))
  ultimately show "wf_index (g w) \<and> keys_extend w (g w)" ..
qed

lemma safe_comp:
  assumes "safe (\<lambda>w. Inr (g w))" and "safe f"
  shows "safe (\<lambda>w. f (g w))"
proof -
  have "safe (\<lambda>w. bindE (Inr (g w)) f)"
    by (rule safe_bindE [OF assms])
  then show ?thesis by simp
qed

lemma safe_reset: "safe (\<lambda>w. Inr (upd_obj ob (\<lambda>d. d\<lparr>spatial := Some empty_spatial\<rparr>) w))"
  by (rule safe_inert) (auto simp: hashes_of_def empty_spatial_def)

lemma safe_track_child: "safe (track_child ob)"
  unfolding track_child_def by (rule safe_comp [OF safe_reset safe_updateObject])

lemma safe_add_obj: "safe (add_obj ob st)"
proof -
  define g where "g = (\<lambda>w.
     let w1 = upd_obj ob (\<lambda>d. d\<lparr>spatial := Some empty_spatial\<rparr>) w;
         w2 = (if dirtyTest w1 then upd_obj ob (\<lambda>d. d\<lparr>dirty := True\<rparr>) w1 else w1)
     in (if st then upd_obj ob (\<lambda>d. d\<lparr>staticObject := True\<rparr>) w2 else w2))"
  have eq: "add_obj ob st = (\<lambda>w. bindE (updateObject ob (g w)) (\<lambda>w4. Inr (w4\<lparr>elements := elements w4 @ [ob]\<rparr>)))"
    by (simp add: add_obj_def g_def Let_def fun_eq_iff)
  have 1: "safe (\<lambda>w. Inr (g w))"
    by (rule safe_inert) (auto simp: g_def Let_def hashes_of_def empty_spatial_def)
  have 2: "safe (\<lambda>w4. Inr (w4\<lparr>elements := elements w4 @ [ob]\<rparr>))"
    by (rule safe_inert) simp_all
  show ?thesis
    unfolding eq by (rule safe_bindE [OF safe_comp [OF 1 safe_updateObject] 2])
qed

lemma safe_remove_obj: "safe (remove_obj ob)"
proof -
  have 1: "safe (\<lambda>w. Inr (w\<lparr>elements := splice_indexOf ob (elements w)\<rparr>))"
    by (rule safe_inert) simp_all
  show ?thesis
    unfolding remove_obj_def by (rule safe_comp [OF 1 safe_removeFromHash])
qed

lemma safe_upd_cont: "safe (\<lambda>w. Inr (upd_cont c f w))"
  by (rule safe_inert) (simp_all add: upd_cont_def)

lemma safe_addContainer: "safe (addContainer c st)"
proof -
  define n where "n = (\<lambda>w. nextClosure w)"
  have 0: "safe (\<lambda>w. Inr (w\<lparr>nextClosure := nextClosure w + 1\<rparr>))"
    by (rule safe_inert) simp_all
  have 1: "safe (\<lambda>w. foldE track_child (children (conts w c)) w)"
    by (rule safe_dep) (rule safe_foldE, rule safe_track_child)
  have 2: "safe (\<lambda>w1. Inr (let w2 = upd_cont c (\<lambda>k. k\<lparr>ccull := Some \<lparr>static = False, added = None, removed = None\<rparr>\<rparr>) w1;
               w3 = w2\<lparr>containers := containers w2 @ [c]\<rparr>;
               w4 = upd_cont c (on_event ''childAdded'' (Added m)) w3;
               w5 = upd_cont c (on_event ''childRemoved'' (Removed m)) w4;
               w6 = upd_cont c (\<lambda>k. k\<lparr>ccull := map_option
                      (\<lambda>cu. cu\<lparr>added := Some (Added m), removed := Some (Removed m)\<rparr>) (ccull k)\<rparr>) w5;
               w7 = (if st
                     then upd_cont c (\<lambda>k. k\<lparr>ccull := map_option (\<lambda>cu. cu\<lparr>static := True\<rparr>) (ccull k)\<rparr>) w6
                     else w6)
           in w7))" for m
    by (rule safe_inert) (simp_all add: Let_def upd_cont_def)
  show ?thesis
  proof (rule safeI)
    fix w assume wf: "wf_index w"
    define w0 where "w0 = w\<lparr>nextClosure := nextClosure w + 1\<rparr>"
    from safeD [OF 0 wf] have w0: "wf_index w0" "keys_extend w w0"
      by (simp_all add: w0_def)
    from safeD [OF 1 w0(1)] obtain w1 where w1:
      "foldE track_child (children (conts w0 c)) w0 = Inr w1" "wf_index w1" "keys_extend w0 w1"
      by blast
    from safeD [OF 2 w1(2), of "nextClosure w"] obtain w7 where w7:
      "Inr (let w2 = upd_cont c (\<lambda>k. k\<lparr>ccull := Some \<lparr>static = False, added = None, removed = None\<rparr>\<rparr>) w1;
               w3 = w2\<lparr>containers := containers w2 @ [c]\<rparr>;
               w4 = upd_cont c (on_event ''childAdded'' (Added (nextClosure w))) w3;
               w5 = upd_cont c (on_event ''childRemoved'' (Removed (nextClosure w))) w4;
               w6 = upd_cont c (\<lambda>k. k\<lparr>ccull := map_option
                      (\<lambda>cu. cu\<lparr>added := Some (Added (nextClosure w)), removed := Some (Removed (nextClosure w))\<rparr>) (ccull k)\<rparr>) w5;
               w7 = (if st
                     then upd_cont c (\<lambda>k. k\<lparr>ccull := map_option (\<lambda>cu. cu\<lparr>static := True\<rparr>) (ccull k)\<rparr>) w6
                     else w6)
           in w7) = (Inr w7 :: error + world)" "wf_index w7" "keys_extend w1 w7"
      by blast
    have "addContainer c st w = Inr w7"
      unfolding addContainer_def Let_def
      using w1(1) w7(1) unfolding w0_def Let_def by simp
    then show "\<exists>w'. addContainer c st w = Inr w' \<and> wf_index w' \<and> keys_extend w w'"
      using w7(2) keys_extend_trans [OF w0(2) keys_extend_trans [OF w1(3) w7(3)]] by blast
  qed
qed


lemma safe_removeContainer: "safe (removeContainer c)"
proof -
  have 0: "safe (\<lambda>w. Inr (w\<lparr>containers := splice_indexOf c (containers w)\<rparr>))"
    by (rule safe_inert) simp_all
  have 1: "safe (\<lambda>w. foldE removeFromHash (children (conts w c)) w)"
    by (rule safe_dep) (rule safe_foldE, rule safe_removeFromHash)
  have 2: "safe (\<lambda>w2. Inr (
           let w3 = upd_cont c (\<lambda>k. off_event ''childAdded'' (Option.bind (ccull k) added) k) w2;
               w4 = upd_cont c (\<lambda>k. off_event ''removedFrom'' (Option.bind (ccull k) removed) k) w3;
               w5 = upd_cont c (\<lambda>k. k\<lparr>ccull := None\<rparr>) w4
           in w5))"
    by (rule safe_inert) (simp_all add: Let_def upd_cont_def)
  have "safe (\<lambda>w. bindE (foldE removeFromHash (children (conts w c)) w) (\<lambda>w2. Inr (
           let w3 = upd_cont c (\<lambda>k. off_event ''childAdded'' (Option.bind (ccull k) added) k) w2;
               w4 = upd_cont c (\<lambda>k. off_event ''removedFrom'' (Option.bind (ccull k) removed) k) w3;
               w5 = upd_cont c (\<lambda>k. k\<lparr>ccull := None\<rparr>) w4
           in w5)))"
    by (rule safe_bindE [OF 1 2])
  from safe_comp [OF 0 this] show ?thesis
    unfolding removeContainer_def Let_def by simp
qed

lemma safe_update_if_dirty: "safe (update_if_dirty ob)"
proof -
  have 1: "safe (\<lambda>w'. Inr (upd_obj ob (\<lambda>d. d\<lparr>dirty := False\<rparr>) w'))"
    by (rule safe_inert) auto
  have "safe (\<lambda>w. if dirty (objs w ob)
      then bindE (updateObject ob w) (\<lambda>w'. Inr (upd_obj ob (\<lambda>d. d\<lparr>dirty := False\<rparr>) w'))
      else Inr w)"
    by (rule safe_if [OF safe_bindE [OF safe_updateObject 1] safe_Inr])
  then show ?thesis
    unfolding update_if_dirty_def [abs_def] .
qed

lemma safe_update_unless_static: "safe (update_unless_static ob)"
proof -
  have "safe (\<lambda>w. if \<not> staticObject (objs w ob) then updateObject ob w else Inr w)"
    by (rule safe_if [OF safe_updateObject safe_Inr])
  then show ?thesis
    unfolding update_unless_static_def [abs_def] .
qed

lemma safe_children_loop:
  assumes "\<And>ob. safe (f ob)"
  shows "safe (\<lambda>w'. if \<not> is_static (conts w' c) then foldE f (children (conts w' c)) w' else Inr w')"
proof (rule safe_if [OF _ safe_Inr])
  show "safe (\<lambda>w'. foldE f (children (conts w' c)) w')"
    by (rule safe_dep) (rule safe_foldE, rule assms)
qed

lemma safe_updateObjects: "safe updateObjects"
proof -
  have 1: "safe (\<lambda>w. bindE (foldE update_if_dirty (elements w) w)
             (foldE (\<lambda>c w'. if \<not> is_static (conts w' c)
                             then foldE update_if_dirty (children (conts w' c)) w'
                             else Inr w') cs))" for cs
  proof (rule safe_bindE)
    show "safe (\<lambda>w. foldE update_if_dirty (elements w) w)"
      by (rule safe_dep) (rule safe_foldE, rule safe_update_if_dirty)
    show "safe (foldE (\<lambda>c w'. if \<not> is_static (conts w' c)
                             then foldE update_if_dirty (children (conts w' c)) w'
                             else Inr w') cs)"
      by (rule safe_foldE) (rule safe_children_loop, rule safe_update_if_dirty)
  qed
  have 2: "safe (\<lambda>w. bindE (foldE update_unless_static (elements w) w)
             (foldE (\<lambda>c w'. if \<not> is_static (conts w' c)
                             then foldE updateObject (children (conts w' c)) w'
                             else Inr w') cs))" for cs
  proof (rule safe_bindE)
    show "safe (\<lambda>w. foldE update_unless_static (elements w) w)"
      by (rule safe_dep) (rule safe_foldE, rule safe_update_unless_static)
    show "safe (foldE (\<lambda>c w'. if \<not> is_static (conts w' c)
                             then foldE updateObject (children (conts w' c)) w'
                             else Inr w') cs)"
      by (rule safe_foldE) (rule safe_children_loop, rule safe_updateObject)
  qed
  show ?thesis
  proof (rule safeI)
    fix w assume wf: "wf_index w"
    show "\<exists>w'. updateObjects w = Inr w' \<and> wf_index w' \<and> keys_extend w w'"
      using safeD [OF 1 wf, of "containers w"] safeD [OF 2 wf, of "containers w"]
      by (simp add: updateObjects_def)
  qed
qed

lemma safe_run_closure: "safe (run_closure f ob)"
proof (cases f)
  case (Added n)
  have "run_closure (Added n) ob = track_child ob" by (rule ext) simp
  then show ?thesis using Added safe_track_child by simp
next
  case (Removed n)
  have "run_closure (Removed n) ob = removeFromHash ob" by (rule ext) simp
  then show ?thesis using Removed safe_removeFromHash by simp
qed

lemma safe_emit: "safe (emit c ev ob)"
proof -
  have "safe (\<lambda>w. foldE (\<lambda>l w'. run_closure (snd l) ob w') (filter (\<lambda>l. fst l = ev) (listeners (conts w c))) w)"
    by (rule safe_dep) (rule safe_foldE, rule safe_run_closure)
  then show ?thesis
    unfolding emit_def [abs_def] .
qed

lemma safe_addChild: "safe (addChild c ob)"
  unfolding addChild_def by (rule safe_comp [OF safe_upd_cont safe_emit])

lemma safe_removeChild: "safe (removeChild c ob)"
proof -
  have "safe (\<lambda>w. if ob \<in> set (children (conts w c))
      then emit c ''childRemoved'' ob (upd_cont c (\<lambda>k. k\<lparr>children := remove1 ob (children k)\<rparr>) w)
      else Inr w)"
    by (rule safe_if [OF safe_comp [OF safe_upd_cont safe_emit] safe_Inr])
  then show ?thesis
    unfolding removeChild_def [abs_def] .
qed

lemma safe_setObject: "safe (\<lambda>w. Inr (setObject ob d w))"
  by (rule safe_inert) (auto simp: setObject_def)

subsection \<open>The cull pass\<close>

lemma fold_set_visible_hash:
  "hash (fold (\<lambda>ob. upd_obj ob (\<lambda>d. d\<lparr>visible := v\<rparr>)) xs w) = hash w"
  by (induction xs arbitrary: w) simp_all

lemma fold_set_visible_rest:
  "same_rest w (fold (\<lambda>ob. upd_obj ob (\<lambda>d. d\<lparr>visible := v\<rparr>)) xs w)"
proof (induction xs arbitrary: w)
  case Nil
  show ?case by simp
next
  case (Cons x xs)
  show ?case
    using same_rest_trans [OF same_rest_upd_obj Cons.IH] by simp
qed

lemma fold_set_visible_last:
  "lastBuckets (fold (\<lambda>ob. upd_obj ob (\<lambda>d. d\<lparr>visible := v\<rparr>)) xs w) = lastBuckets w"
  by (induction xs arbitrary: w) (simp_all add: upd_obj_def)

lemma fold_set_visible_objs:
  "objs (fold (\<lambda>ob. upd_obj ob (\<lambda>d. d\<lparr>visible := v\<rparr>)) xs w) p =
     (if p \<in> set xs then (objs w p)\<lparr>visible := v\<rparr> else objs w p)"
  by (induction xs arbitrary: w) simp_all

lemma invisible_children:
  "hash (fold (\<lambda>c w'. fold (\<lambda>ob. upd_obj ob (\<lambda>d. d\<lparr>visible := False\<rparr>)) (children (conts w' c)) w') cs w) = hash w
   \<and> same_rest w (fold (\<lambda>c w'. fold (\<lambda>ob. upd_obj ob (\<lambda>d. d\<lparr>visible := False\<rparr>)) (children (conts w' c)) w') cs w)
   \<and> lastBuckets (fold (\<lambda>c w'. fold (\<lambda>ob. upd_obj ob (\<lambda>d. d\<lparr>visible := False\<rparr>)) (children (conts w' c)) w') cs w) = lastBuckets w
   \<and> (\<forall>p. objs (fold (\<lambda>c w'. fold (\<lambda>ob. upd_obj ob (\<lambda>d. d\<lparr>visible := False\<rparr>)) (children (conts w' c)) w') cs w) p =
        (if \<exists>c\<in>set cs. p \<in> set (children (conts w c)) then (objs w p)\<lparr>visible := False\<rparr> else objs w p))"
proof (induction cs arbitrary: w)
  case Nil
  show ?case by simp
next
  case (Cons c cs)
  define w1 where "w1 = fold (\<lambda>ob. upd_obj ob (\<lambda>d. d\<lparr>visible := False\<rparr>)) (children (conts w c)) w"
  have r: "same_rest w w1" and h: "hash w1 = hash w" and l: "lastBuckets w1 = lastBuckets w"
    and o: "\<And>p. objs w1 p = (if p \<in> set (children (conts w c)) then (objs w p)\<lparr>visible := False\<rparr> else objs w p)"
    by (simp_all add: w1_def fold_set_visible_rest fold_set_visible_hash fold_set_visible_objs
        fold_set_visible_last)
  have c: "conts w1 = conts w" using r by (simp add: same_rest_def)
  show ?case
    using Cons.IH [of w1] same_rest_trans [OF r]
    by (simp add: w1_def [symmetric] h l o c)
qed

lemma invisible_effect:
  "hash (invisible w) = hash w" "same_rest w (invisible w)"
  "objs (invisible w) p = (if tracked w p then (objs w p)\<lparr>visible := False\<rparr> else objs w p)"
proof -
  define w1 where "w1 = fold (\<lambda>ob. upd_obj ob (\<lambda>d. d\<lparr>visible := False\<rparr>)) (elements w) w"
  have r: "same_rest w w1" and h: "hash w1 = hash w"
    and o: "\<And>p. objs w1 p = (if p \<in> set (elements w) then (objs w p)\<lparr>visible := False\<rparr> else objs w p)"
    by (simp_all add: w1_def fold_set_visible_rest fold_set_visible_hash fold_set_visible_objs)
  have c: "conts w1 = conts w" using r by (simp add: same_rest_def)
  have eq: "invisible w = fold (\<lambda>c w'. fold (\<lambda>ob. upd_obj ob (\<lambda>d. d\<lparr>visible := False\<rparr>)) (children (conts w' c)) w') (containers w) w1"
    by (simp add: invisible_def w1_def)
  note ic = invisible_children [of "containers w" w1, folded eq]
  show "hash (invisible w) = hash w" using ic h by simp
  show "same_rest w (invisible w)" using ic same_rest_trans [OF r] by blast
  show "objs (invisible w) p = (if tracked w p then (objs w p)\<lparr>visible := False\<rparr> else objs w p)"
    using ic by (auto simp: o c tracked_def)
qed

lemma query_entry_ok:
  "\<forall>ob\<in>set entry. AABB (objs w ob) \<noteq> None \<Longrightarrow>
   query_entry w R entry results = Inr (results @ filter (hit w R) entry)"
  by (induction entry arbitrary: results) (auto simp: hit_def)

lemma query_cell_ok:
  assumes "wf_index w"
  shows "query_cell w R st k (n, rs) =
     Inr (n + (if map_of (hash w) k = None then 0 else 1),
          rs @ filter (\<lambda>ob. st \<longrightarrow> hit w R ob) (bucket w k))"
proof (cases "map_of (hash w) k")
  case None
  then show ?thesis by (simp add: query_cell_def bucket_def entry_of_def)
next
  case (Some entry)
  then have b: "bucket w k = entry" by (simp add: bucket_def entry_of_def)
  have "\<forall>ob\<in>set entry. AABB (objs w ob) \<noteq> None"
    using wf_indexD(5) [OF assms, of _ k] b by blast
  then show ?thesis
    using Some by (simp add: query_cell_def query_entry_ok b)
qed

lemma query_cells_ok:
  assumes "wf_index w"
  shows "\<exists>n'. foldE (query_cell w R st) ks (n, rs) =
     Inr (n', rs @ concat (map (\<lambda>k. filter (\<lambda>ob. st \<longrightarrow> hit w R ob) (bucket w k)) ks))"
proof (induction ks arbitrary: n rs)
  case Nil
  show ?case by simp
next
  case (Cons k ks)
  show ?case
    using Cons.IH [of "n + (if map_of (hash w) k = None then 0 else 1)"
        "rs @ filter (\<lambda>ob. st \<longrightarrow> hit w R ob) (bucket w k)"]
    by (simp add: query_cell_ok [OF assms])
qed

lemma query_ok:
  assumes "wf_index w"
  shows "\<exists>n rs. query R st w = Inr (rs, w\<lparr>lastBuckets := n\<rparr>) \<and> set rs = {ob. found w R st ob}"
proof -
  have gb: "getBounds w R = Inr (cell_range w R)"
    using wf_indexD(1,2) [OF assms] by (simp add: getBounds_def)
  from query_cells_ok [OF assms, of R st "cells (cell_range w R)" 0 "[]"] obtain n where
    n: "foldE (query_cell w R st) (cells (cell_range w R)) (0, []) =
       Inr (n, concat (map (\<lambda>k. filter (\<lambda>ob. st \<longrightarrow> hit w R ob) (bucket w k)) (cells (cell_range w R))))"
    by auto
  have "query R st w = Inr (concat (map (\<lambda>k. filter (\<lambda>ob. st \<longrightarrow> hit w R ob) (bucket w k)) (cells (cell_range w R))), w\<lparr>lastBuckets := n\<rparr>)"
    by (simp add: query_def gb n)
  moreover have "set (concat (map (\<lambda>k. filter (\<lambda>ob. st \<longrightarrow> hit w R ob) (bucket w k)) (cells (cell_range w R)))) = {ob. found w R st ob}"
    by (auto simp: found_def)
  ultimately show ?thesis by blast
qed

lemma found_cong:
  assumes "hash w' = hash w" "xSize w' = xSize w" "ySize w' = ySize w"
    and "\<And>p. AABB (objs w' p) = AABB (objs w p)"
  shows "found w' R st ob = found w R st ob"
  by (simp add: found_def hit_def bucket_def cell_range_def assms)

lemma cull_effect:
  assumes "wf_index w1" and "(if \<not> skip then updateObjects w else Inr w) = Inr w1"
  shows "\<exists>n w'. cull R skip None w u = Inr (n, w', u) \<and> hash w' = hash w1 \<and> same_rest w1 w'
     \<and> (\<forall>p. objs w' p = (objs w1 p)\<lparr>visible :=
           (if found w1 R (simpleTest w1) p then True
            else if tracked w1 p then False else visible (objs w1 p))\<rparr>)"
proof -
  define w2 where "w2 = invisible w1"
  have h2: "hash w2 = hash w1" and r2: "same_rest w1 w2"
    and o2: "\<And>p. objs w2 p = (if tracked w1 p then (objs w1 p)\<lparr>visible := False\<rparr> else objs w1 p)"
    by (simp_all add: w2_def invisible_effect)
  have sz: "xSize w2 = xSize w1" "ySize w2 = ySize w1" and st: "simpleTest w2 = simpleTest w1"
    using r2 by (simp_all add: same_rest_def)
  have wf2: "wf_index w2"
    by (rule wf_index_inert [OF assms(1) sz h2]) (simp_all add: o2)
  from query_ok [OF wf2, of R "simpleTest w1"] obtain n rs where
    q: "query R (simpleTest w1) w2 = Inr (rs, w2\<lparr>lastBuckets := n\<rparr>)"
    "set rs = {ob. found w2 R (simpleTest w1) ob}"
    by blast
  have f: "found w2 R (simpleTest w1) p = found w1 R (simpleTest w1) p" for p
    by (rule found_cong [OF h2 sz]) (simp add: o2)
  define w4 where "w4 = fold (\<lambda>ob. upd_obj ob (\<lambda>d. d\<lparr>visible := True\<rparr>)) rs (w2\<lparr>lastBuckets := n\<rparr>)"
  have c: "cull R skip None w u = Inr (lastBuckets w4, w4, u)"
    unfolding cull_def using assms(2) q(1)
    by (simp add: Let_def w2_def [symmetric] st w4_def [symmetric])
  have h4: "hash w4 = hash w1"
    by (simp add: w4_def fold_set_visible_hash h2)
  have "same_rest (w2\<lparr>lastBuckets := n\<rparr>) w4"
    unfolding w4_def by (rule fold_set_visible_rest)
  moreover have "same_rest w1 (w2\<lparr>lastBuckets := n\<rparr>)"
    using r2 by (simp add: same_rest_def)
  ultimately have r4: "same_rest w1 w4"
    using same_rest_trans by blast
  have o4: "objs w4 p = (objs w1 p)\<lparr>visible :=
           (if found w1 R (simpleTest w1) p then True
            else if tracked w1 p then False else visible (objs w1 p))\<rparr>" for p
    using q(2) f [of p] by (simp add: w4_def fold_set_visible_objs o2)
  from c h4 r4 o4 show ?thesis by blast
qed

lemma safe_cull: "safe (\<lambda>w. bindE (cull R skip None w ()) (\<lambda>r. Inr (fst (snd r))))"
proof (rule safeI)
  fix w assume wf: "wf_index w"
  have "\<exists>w1. (if \<not> skip then updateObjects w else Inr w) = Inr w1 \<and> wf_index w1 \<and> keys_extend w w1"
    using safeD [OF safe_updateObjects wf] wf by (cases skip) simp_all
  then obtain w1 where w1: "(if \<not> skip then updateObjects w else Inr w) = Inr w1"
    "wf_index w1" "keys_extend w w1"
    by blast
  from cull_effect [OF w1(2) w1(1), of R "()"] obtain n w' where w':
    "cull R skip None w () = Inr (n, w', ())" "hash w' = hash w1" "same_rest w1 w'"
    "\<forall>p. objs w' p = (objs w1 p)\<lparr>visible :=
           (if found w1 R (simpleTest w1) p then True
            else if tracked w1 p then False else visible (objs w1 p))\<rparr>"
    by blast
  have sz: "xSize w' = xSize w1" "ySize w' = ySize w1"
    using w'(3) by (simp_all add: same_rest_def)
  have wf': "wf_index w'"
    by (rule wf_index_inert [OF w1(2) sz w'(2)]) (simp_all add: w'(4))
  have "keys_extend w w'"
    using keys_extend_trans [OF w1(3) keys_extend_same] w'(2) by simp
  then show "\<exists>w'. bindE (cull R skip None w ()) (\<lambda>r. Inr (fst (snd r))) = Inr w' \<and> wf_index w' \<and> keys_extend w w'"
    using w'(1) wf' by simp
qed

lemma safe_step: "safe (step op)"
proof (cases op)
  case (Add ob st)
  have "step (Add ob st) = add_obj ob st" by (rule ext) simp
  then show ?thesis using Add safe_add_obj by simp
next
  case (Remove ob)
  have "step (Remove ob) = remove_obj ob" by (rule ext) simp
  then show ?thesis using Remove safe_remove_obj by simp
next
  case (AddContainer c st)
  have "step (AddContainer c st) = addContainer c st" by (rule ext) simp
  then show ?thesis using AddContainer safe_addContainer by simp
next
  case (RemoveContainer c)
  have "step (RemoveContainer c) = removeContainer c" by (rule ext) simp
  then show ?thesis using RemoveContainer safe_removeContainer by simp
next
  case UpdateObjects
  have "step UpdateObjects = updateObjects" by (rule ext) simp
  then show ?thesis using UpdateObjects safe_updateObjects by simp
next
  case (Cull R skip)
  have "step (Cull R skip) = (\<lambda>w. bindE (cull R skip None w ()) (\<lambda>r. Inr (fst (snd r))))"
    by (rule ext) simp
  then show ?thesis using Cull safe_cull by simp
next
  case (AddChild c ob)
  have "step (AddChild c ob) = addChild c ob" by (rule ext) simp
  then show ?thesis using AddChild safe_addChild by simp
next
  case (RemoveChild c ob)
  have "step (RemoveChild c ob) = removeChild c ob" by (rule ext) simp
  then show ?thesis using RemoveChild safe_removeChild by simp
next
  case (SetObject ob d)
  have "step (SetObject ob d) = (\<lambda>w. Inr (setObject ob d w))" by (rule ext) simp
  then show ?thesis using SetObject safe_setObject by simp
qed

lemma safe_run: "safe (run ops)"
  unfolding run_def [abs_def] by (rule safe_foldE) (rule safe_step)

lemma wf_index_constructor:
  assumes "xSize (constructor opts os cs) \<noteq> 0" and "ySize (constructor opts os cs) \<noteq> 0"
    and "\<And>ob. hashes_of (constructor opts os cs) ob = []"
  shows "wf_index (constructor opts os cs)"
proof -
  have "hash (constructor opts os cs) = []"
    by (simp add: constructor_def Let_def)
  then have "bucket (constructor opts os cs) k = []" for k
    by (simp add: bucket_def entry_of_def)
  then show ?thesis
    unfolding wf_index_def using assms by simp
qed

lemma wf_index_world0: "wf_index world0"
  unfolding world0_def
  by (rule wf_index_constructor)
     (simp_all add: constructor_def cell100_def hashes_of_def scene_def sprite_def)


subsection \<open>Buckets are never deleted\<close>

lemma getBuckets_default: "set (getBuckets None w) = set (map snd (hash w)) - {[]}"
  by (auto simp: getBuckets_def Suc_le_eq)

text \<open>
  C10: a bucket, once created, is never deleted. From any well-formed state, any sequence
  of operations (registering, unregistering, refreshing, culling, changes of the scene)
  returns a state whose hash has the keys it had before, in the same order, followed by the
  new ones; \<open>getNumberOfBuckets\<close> counts them all, the old keys and the new ones, whether
  their buckets are empty or not, and so never decreases, whereas \<open>getBuckets\<close> with the
  default minimum returns the buckets that are not empty.
\<close>

theorem buckets_never_deleted:
  assumes "wf_index w"
  shows "\<exists>w' ks. run ops w = Inr w'
     \<and> map fst (hash w') = map fst (hash w) @ ks
     \<and> getNumberOfBuckets w' = getNumberOfBuckets w + length ks
     \<and> getNumberOfBuckets w \<le> getNumberOfBuckets w'
     \<and> set (getBuckets None w') = set (map snd (hash w')) - {[]}"
proof -
  from safeD [OF safe_run assms, of ops] obtain w' where
    w': "run ops w = Inr w'" "keys_extend w w'"
    by blast
  from w'(2) obtain ks where ks: "map fst (hash w') = map fst (hash w) @ ks"
    unfolding keys_extend_def by blast
  have "length (map fst (hash w')) = length (map fst (hash w)) + length ks"
    unfolding ks by simp
  then have n: "getNumberOfBuckets w' = getNumberOfBuckets w + length ks"
    by (simp add: getNumberOfBuckets_def)
  then have "getNumberOfBuckets w \<le> getNumberOfBuckets w'"
    by simp
  then show ?thesis
    using w'(1) ks n getBuckets_default by blast
qed

theorem buckets_never_deleted_witness:
  "wf_index world0
   \<and> (\<exists>w'. run [Add 0 False, Add 1 False, Remove 0] world0 = Inr w'
        \<and> map fst (hash w') = map fst (hash world0) @ [(0, 0), (1, 0)]
        \<and> getNumberOfBuckets w' = getNumberOfBuckets world0 + 2
        \<and> getNumberOfBuckets world0 \<le> getNumberOfBuckets w'
        \<and> set (getBuckets None w') = set (map snd (hash w')) - {[]})
   \<and> getNumberOfBuckets world0 = 0
   \<and> after [Add 0 False] world0
        (\<lambda>w. hash w = [((0, 0), [0])] \<and> getNumberOfBuckets w = 1 \<and> getBuckets None w = [[0]])
   \<and> after [Add 0 False, Add 1 False] world0
        (\<lambda>w. hash w = [((0, 0), [0]), ((1, 0), [1])] \<and> getNumberOfBuckets w = 2
           \<and> getBuckets None w = [[0], [1]])
   \<and> after [Add 0 False, Add 1 False, Remove 0] world0
        (\<lambda>w. hash w = [((0, 0), []), ((1, 0), [1])] \<and> getNumberOfBuckets w = 2
           \<and> getBuckets None w = [[1]])"
proof -
  let ?ops = "[Add 0 False, Add 1 False, Remove 0]"
  have h0: "hash world0 = []" "getNumberOfBuckets world0 = 0"
    by (simp_all add: world0_def constructor_def getNumberOfBuckets_def Let_def)
  have a1: "after [Add 0 False] world0
        (\<lambda>w. hash w = [((0, 0), [0])] \<and> getNumberOfBuckets w = 1 \<and> getBuckets None w = [[0]])"
    by (simp add: eval_defs)
  have a2: "after [Add 0 False, Add 1 False] world0
        (\<lambda>w. hash w = [((0, 0), [0]), ((1, 0), [1])] \<and> getNumberOfBuckets w = 2
           \<and> getBuckets None w = [[0], [1]])"
    by (simp add: eval_defs)
  have a3: "after ?ops world0
        (\<lambda>w. hash w = [((0, 0), []), ((1, 0), [1])] \<and> getNumberOfBuckets w = 2
           \<and> getBuckets None w = [[1]])"
    by (simp add: eval_defs)
  from buckets_never_deleted [OF wf_index_world0, of ?ops] obtain w' ks where w':
    "run ?ops world0 = Inr w'" "map fst (hash w') = map fst (hash world0) @ ks"
    "getNumberOfBuckets w' = getNumberOfBuckets world0 + length ks"
    "getNumberOfBuckets world0 \<le> getNumberOfBuckets w'"
    "set (getBuckets None w') = set (map snd (hash w')) - {[]}"
    by blast
  have "hash w' = [((0, 0), []), ((1, 0), [1])]"
    using a3 w'(1) by (simp add: after_def)
  then have ks: "ks = [(0, 0), (1, 0)]"
    using w'(2) h0(1) by simp
  have "\<exists>w'. run ?ops world0 = Inr w'
        \<and> map fst (hash w') = map fst (hash world0) @ [(0, 0), (1, 0)]
        \<and> getNumberOfBuckets w' = getNumberOfBuckets world0 + 2
        \<and> getNumberOfBuckets world0 \<le> getNumberOfBuckets w'
        \<and> set (getBuckets None w') = set (map snd (hash w')) - {[]}"
    using w' unfolding ks by (intro exI [of _ w']) simp
  then show ?thesis
    using wf_index_world0 h0(2) a1 a2 a3 by blast
qed

subsection \<open>The refresh pass\<close>

lemma updateObjects_visit:
  "updateObjects w =
     (if dirtyTest w then visit update_if_dirty update_if_dirty w
      else visit update_unless_static updateObject w)"
  by (simp add: updateObjects_def visit_def)

lemma visit_rule:
  assumes init: "I w"
    and conts: "\<And>t. I t \<Longrightarrow> conts t = conts w"
    and f_step: "\<And>x t. x \<in> set (elements w) \<Longrightarrow> I t \<Longrightarrow> \<exists>t'. f x t = Inr t' \<and> I t' \<and> A x t'"
    and g_step: "\<And>c x t. c \<in> set (containers w) \<Longrightarrow> \<not> is_static (conts w c) \<Longrightarrow>
        x \<in> set (children (conts w c)) \<Longrightarrow> I t \<Longrightarrow> \<exists>t'. g x t = Inr t' \<and> I t' \<and> B x t'"
    and A_f: "\<And>x y t t'. I t \<Longrightarrow> A y t \<Longrightarrow> f x t = Inr t' \<Longrightarrow> A y t'"
    and A_g: "\<And>x y t t'. I t \<Longrightarrow> A y t \<Longrightarrow> g x t = Inr t' \<Longrightarrow> A y t'"
    and B_g: "\<And>x y t t'. I t \<Longrightarrow> B y t \<Longrightarrow> g x t = Inr t' \<Longrightarrow> B y t'"
  shows "\<exists>w'. visit f g w = Inr w' \<and> I w'
     \<and> (\<forall>x\<in>set (elements w). A x w')
     \<and> (\<forall>c\<in>set (containers w). \<not> is_static (conts w c) \<longrightarrow>
           (\<forall>x\<in>set (children (conts w c)). B x w'))"
proof -
  have "\<exists>w1. foldE f (elements w) w = Inr w1 \<and> I w1 \<and> (\<forall>x\<in>set (elements w). A x w1)"
  proof (rule foldE_inv_post [where I = I and Q = A])
    show "I w" by (rule init)
  next
    fix x t assume "x \<in> set (elements w)" "I t"
    then show "\<exists>t'. f x t = Inr t' \<and> I t' \<and> A x t'" by (rule f_step)
  next
    fix x y t t' assume "I t" "A y t" "f x t = Inr t'"
    then show "A y t'" by (rule A_f)
  qed
  then obtain w1 where w1: "foldE f (elements w) w = Inr w1" "I w1" "\<forall>x\<in>set (elements w). A x w1"
    by blast
  define J where "J = (\<lambda>t. I t \<and> (\<forall>x\<in>set (elements w). A x t))"
  define inner where "inner = (\<lambda>c w'. if \<not> is_static (conts w' c)
                       then foldE g (children (conts w' c)) w' else Inr w')"
  define Qc where "Qc = (\<lambda>c t. \<not> is_static (conts w c) \<longrightarrow> (\<forall>x\<in>set (children (conts w c)). B x t))"
  have inner_step: "\<exists>t'. inner c t = Inr t' \<and> J t' \<and> Qc c t' \<and> (\<forall>y. B y t \<longrightarrow> B y t')"
    if c: "c \<in> set (containers w)" and t: "J t" for c t
  proof (cases "is_static (conts w c)")
    case True
    then show ?thesis using t conts [of t] by (simp add: inner_def Qc_def J_def)
  next
    case False
    have "\<exists>t'. foldE g (children (conts w c)) t = Inr t' \<and> J t'
        \<and> (\<forall>x\<in>set (children (conts w c)). B x t') \<and> (\<forall>y. B y t \<longrightarrow> B y t')"
    proof (rule foldE_inv_post_aux [where zs = "children (conts w c)" and I = J and Q = B])
      fix x t assume x: "x \<in> set (children (conts w c))" and "J t"
      then have It: "I t" and At: "\<forall>y\<in>set (elements w). A y t" by (simp_all add: J_def)
      from g_step [OF c False x It] obtain t' where t': "g x t = Inr t'" "I t'" "B x t'"
        by blast
      have "\<forall>y\<in>set (elements w). A y t'"
        using At A_g [OF It _ t'(1)] by blast
      then show "\<exists>t'. g x t = Inr t' \<and> J t' \<and> B x t'"
        using t' by (auto simp: J_def)
    next
      fix x y t t' assume j: "J t" and b: "B y t" and s: "g x t = Inr t'"
      from j have "I t" by (simp add: J_def)
      from B_g [OF this b s] show "B y t'" .
    next
      show "J t" by (rule t)
    next
      show "set (children (conts w c)) \<subseteq> set (children (conts w c))" by simp
    qed
    then show ?thesis
      using False t conts [of t] by (simp add: inner_def Qc_def J_def)
  qed
  have "\<exists>w'. foldE inner (containers w) w1 = Inr w' \<and> J w' \<and> (\<forall>c\<in>set (containers w). Qc c w')"
  proof (rule foldE_inv_post [where I = J and Q = Qc])
    show "J w1" using w1 by (simp add: J_def)
  next
    fix c t assume "c \<in> set (containers w)" "J t"
    from inner_step [OF this] show "\<exists>t'. inner c t = Inr t' \<and> J t' \<and> Qc c t'" by blast
  next
    fix c y t t' assume c: "c \<in> set (containers w)" and t: "J t" and q: "Qc y t"
      and s: "inner c t = Inr t'"
    from inner_step [OF c t] s have "\<forall>z. B z t \<longrightarrow> B z t'" by simp
    then show "Qc y t'" using q by (simp add: Qc_def)
  qed
  then obtain w' where w': "foldE inner (containers w) w1 = Inr w'" "J w'"
    "\<forall>c\<in>set (containers w). Qc c w'"
    by blast
  have "visit f g w = Inr w'"
    using w1(1) w'(1) by (simp add: visit_def inner_def)
  then show ?thesis
    using w'(2,3) by (simp add: J_def Qc_def)
qed

lemma computeAABB_index_fields [simp]:
  "computeAABB (d\<lparr>AABB := a\<rparr>) = computeAABB d"
  "computeAABB (d\<lparr>spatial := s\<rparr>) = computeAABB d"
  "computeAABB (d\<lparr>dirty := b\<rparr>) = computeAABB d"
  "computeAABB (d\<lparr>visible := b\<rparr>) = computeAABB d"
  "computeAABB (d\<lparr>staticObject := b\<rparr>) = computeAABB d"
  by (simp_all add: computeAABB_def)

lemma same_rest_sizes: "same_rest w w' \<Longrightarrow> xSize w' = xSize w \<and> ySize w' = ySize w"
  by (simp add: same_rest_def)

lemma new_range_cong:
  "xSize w' = xSize w \<Longrightarrow> ySize w' = ySize w \<Longrightarrow> computeAABB (objs w' y) = computeAABB (objs w y)
   \<Longrightarrow> new_range w' y = new_range w y"
  by (simp add: new_range_def cell_range_def)

lemma settled_cong:
  "xSize w' = xSize w \<Longrightarrow> ySize w' = ySize w \<Longrightarrow> objs w' y = objs w y \<Longrightarrow> settled w' y = settled w y"
  by (simp add: settled_def new_range_def cell_range_def)

lemma updateObject_step:
  assumes "wf_index w"
  shows "\<exists>w'. updateObject ob w = Inr w' \<and> wf_index w' \<and> others_same ob w w'
     \<and> objs w' ob = (objs w ob)\<lparr>AABB := Some (computeAABB (objs w ob)), spatial := spatial (objs w' ob)\<rparr>
     \<and> settled w' ob
     \<and> (\<forall>y. settled w y \<longrightarrow> settled w' y)
     \<and> (settled w ob \<longrightarrow> hash w' = hash w)"
proof -
  from updateObject_effect [OF assms refl, of ob] obtain w' where w':
    "updateObject ob w = Inr w'" "wf_index w'" "others_same ob w w'"
    "objs w' ob = (objs w ob)\<lparr>AABB := Some (computeAABB (objs w ob)), spatial := spatial (objs w' ob)\<rparr>"
    "spatial (objs w' ob) \<noteq> None"
    "\<not> range_differs (spatial_or_empty (objs w' ob)) (cell_range w (computeAABB (objs w ob)))"
    "\<not> range_differs (spatial_or_empty (objs w ob)) (cell_range w (computeAABB (objs w ob))) \<longrightarrow>
          hash w' = hash w \<and> spatial (objs w' ob) = Some (spatial_or_empty (objs w ob))"
    by blast
  have sz: "xSize w' = xSize w" "ySize w' = ySize w"
    using same_rest_sizes [OF others_same_rest [OF w'(3)]] by simp_all
  have ca: "computeAABB (objs w' ob) = computeAABB (objs w ob)"
    by (subst w'(4)) simp
  have nr: "new_range w' ob = new_range w ob"
    by (rule new_range_cong [OF sz ca])
  have s: "settled w' ob"
    using w'(5,6) by (simp add: settled_def nr) (simp add: new_range_def)
  have p: "settled w' y" if "settled w y" for y
  proof (cases "y = ob")
    case True
    then show ?thesis using s by simp
  next
    case False
    then show ?thesis
      using that settled_cong [OF sz others_same_objs [OF w'(3) False]] by simp
  qed
  have h: "hash w' = hash w" if "settled w ob"
    using that w'(7) by (simp add: settled_def new_range_def)
  from w'(1,2,3,4) s p h show ?thesis by blast
qed

lemma update_unless_static_step:
  assumes "wf_index w"
  shows "\<exists>w'. update_unless_static ob w = Inr w' \<and> wf_index w' \<and> same_rest w w'
     \<and> (\<forall>p. staticObject (objs w' p) = staticObject (objs w p))
     \<and> (staticObject (objs w' ob) \<or> settled w' ob)
     \<and> (\<forall>y. settled w y \<longrightarrow> settled w' y)
     \<and> (staticObject (objs w ob) \<or> settled w ob \<longrightarrow> hash w' = hash w)"
proof (cases "staticObject (objs w ob)")
  case True
  then show ?thesis using assms by (simp add: update_unless_static_def)
next
  case False
  from updateObject_step [OF assms, of ob] obtain w' where w':
    "updateObject ob w = Inr w'" "wf_index w'" "others_same ob w w'"
    "objs w' ob = (objs w ob)\<lparr>AABB := Some (computeAABB (objs w ob)), spatial := spatial (objs w' ob)\<rparr>"
    "settled w' ob" "\<forall>y. settled w y \<longrightarrow> settled w' y" "settled w ob \<longrightarrow> hash w' = hash w"
    by blast
  have st: "staticObject (objs w' p) = staticObject (objs w p)" for p
  proof (cases "p = ob")
    case True
    then show ?thesis by (simp, subst w'(4)) simp
  next
    case False
    then show ?thesis using others_same_objs [OF w'(3)] by simp
  qed
  have "update_unless_static ob w = Inr w'"
    using False w'(1) by (simp add: update_unless_static_def)
  then show ?thesis
    using w'(2,5,6,7) others_same_rest [OF w'(3)] st False by blast
qed

lemma updateObject_static_same:
  assumes "wf_index w" and "updateObject ob w = Inr w'"
  shows "staticObject (objs w' p) = staticObject (objs w p)"
    and "dirty (objs w' p) = dirty (objs w p)"
proof -
  from updateObject_step [OF assms(1), of ob] assms(2) have w':
    "others_same ob w w'"
    "objs w' ob = (objs w ob)\<lparr>AABB := Some (computeAABB (objs w ob)), spatial := spatial (objs w' ob)\<rparr>"
    by auto
  show "staticObject (objs w' p) = staticObject (objs w p)"
  proof (cases "p = ob")
    case True
    then show ?thesis by (simp, subst w'(2)) simp
  next
    case False
    then show ?thesis using others_same_objs [OF w'(1)] by simp
  qed
  show "dirty (objs w' p) = dirty (objs w p)"
  proof (cases "p = ob")
    case True
    then show ?thesis by (simp, subst w'(2)) simp
  next
    case False
    then show ?thesis using others_same_objs [OF w'(1)] by simp
  qed
qed

lemma update_if_dirty_step:
  assumes "wf_index w"
  shows "\<exists>w'. update_if_dirty ob w = Inr w' \<and> wf_index w' \<and> same_rest w w'
     \<and> \<not> dirty (objs w' ob)
     \<and> (\<forall>y. \<not> dirty (objs w y) \<longrightarrow> \<not> dirty (objs w' y))
     \<and> (\<not> dirty (objs w ob) \<longrightarrow> w' = w)"
proof (cases "dirty (objs w ob)")
  case False
  then show ?thesis using assms by (simp add: update_if_dirty_def)
next
  case True
  from updateObject_step [OF assms, of ob] obtain w1 where w1:
    "updateObject ob w = Inr w1" "wf_index w1" "others_same ob w w1"
    by blast
  define w' where "w' = upd_obj ob (\<lambda>d. d\<lparr>dirty := False\<rparr>) w1"
  have 1: "update_if_dirty ob w = Inr w'"
    using True w1(1) by (simp add: update_if_dirty_def w'_def)
  have 2: "wf_index w'"
    by (rule wf_index_inert [OF w1(2)]) (auto simp: w'_def)
  have 3: "same_rest w w'"
    using same_rest_trans [OF others_same_rest [OF w1(3)], of w'] by (simp add: w'_def)
  have 4: "\<not> dirty (objs w' ob)"
    by (simp add: w'_def)
  have 5: "\<not> dirty (objs w' y)" if "\<not> dirty (objs w y)" for y
    using that updateObject_static_same(2) [OF assms w1(1), of y] by (simp add: w'_def)
  from 1 2 3 4 5 True show ?thesis by blast
qed

subsection \<open>Refreshing twice\<close>

lemma refresh_twice_full_scan:
  assumes wf: "wf_index w"
  shows "\<exists>w1 w2. visit update_unless_static updateObject w = Inr w1 \<and> same_rest w w1
     \<and> visit update_unless_static updateObject w1 = Inr w2 \<and> hash w2 = hash w1"
proof -
  define I where "I = (\<lambda>t. wf_index t \<and> same_rest w t
      \<and> (\<forall>p. staticObject (objs t p) = staticObject (objs w p)))"
  define A where "A = (\<lambda>x t. staticObject (objs t x) \<or> settled t x)"
  define B where "B = (\<lambda>x t. settled t x)"
  have uus: "\<exists>t'. update_unless_static x t = Inr t' \<and> I t' \<and> A x t'
      \<and> (\<forall>y. A y t \<longrightarrow> A y t') \<and> (\<forall>y. B y t \<longrightarrow> B y t') \<and> (A x t \<longrightarrow> hash t' = hash t)"
    if "I t" for x t
  proof -
    from that have "wf_index t" by (simp add: I_def)
    from update_unless_static_step [OF this, of x] obtain t' where t':
      "update_unless_static x t = Inr t'" "wf_index t'" "same_rest t t'"
      "\<forall>p. staticObject (objs t' p) = staticObject (objs t p)"
      "staticObject (objs t' x) \<or> settled t' x" "\<forall>y. settled t y \<longrightarrow> settled t' y"
      "staticObject (objs t x) \<or> settled t x \<longrightarrow> hash t' = hash t"
      by blast
    have "I t'"
      using that t'(2,4) same_rest_trans [OF _ t'(3), of w] by (simp add: I_def)
    then show ?thesis
      using t'(1,4,5,6,7) by (auto simp: A_def B_def)
  qed
  have uo: "\<exists>t'. updateObject x t = Inr t' \<and> I t' \<and> B x t'
      \<and> (\<forall>y. A y t \<longrightarrow> A y t') \<and> (\<forall>y. B y t \<longrightarrow> B y t') \<and> (B x t \<longrightarrow> hash t' = hash t)"
    if "I t" for x t
  proof -
    from that have wt: "wf_index t" by (simp add: I_def)
    from updateObject_step [OF this, of x] obtain t' where t':
      "updateObject x t = Inr t'" "wf_index t'" "others_same x t t'"
      "settled t' x" "\<forall>y. settled t y \<longrightarrow> settled t' y" "settled t x \<longrightarrow> hash t' = hash t"
      by blast
    have st: "staticObject (objs t' p) = staticObject (objs t p)" for p
      by (rule updateObject_static_same(1) [OF wt t'(1)])
    have "I t'"
      using that t'(2) st same_rest_trans [OF _ others_same_rest [OF t'(3)], of w] by (simp add: I_def)
    then show ?thesis
      using t'(1,4,5,6) st by (auto simp: A_def B_def)
  qed
  have "\<exists>w1. visit update_unless_static updateObject w = Inr w1 \<and> I w1
     \<and> (\<forall>x\<in>set (elements w). A x w1)
     \<and> (\<forall>c\<in>set (containers w). \<not> is_static (conts w c) \<longrightarrow>
           (\<forall>x\<in>set (children (conts w c)). B x w1))"
  proof (rule visit_rule [where I = I and A = A and B = B])
    show "I w" using wf by (simp add: I_def)
  next
    fix t assume "I t" then show "conts t = conts w" by (simp add: I_def same_rest_def)
  next
    fix x t assume "I t"
    from uus [OF this, of x] show "\<exists>t'. update_unless_static x t = Inr t' \<and> I t' \<and> A x t'" by blast
  next
    fix x t assume "I t"
    from uo [OF this, of x] show "\<exists>t'. updateObject x t = Inr t' \<and> I t' \<and> B x t'" by blast
  next
    fix x y t t' assume "I t" "A y t" "update_unless_static x t = Inr t'"
    then show "A y t'" using uus [of t x] by auto
  next
    fix x y t t' assume "I t" "A y t" "updateObject x t = Inr t'"
    then show "A y t'" using uo [of t x] by auto
  next
    fix x y t t' assume "I t" "B y t" "updateObject x t = Inr t'"
    then show "B y t'" using uo [of t x] by auto
  qed
  then obtain w1 where w1: "visit update_unless_static updateObject w = Inr w1" "I w1"
    "\<forall>x\<in>set (elements w). A x w1"
    "\<forall>c\<in>set (containers w). \<not> is_static (conts w c) \<longrightarrow> (\<forall>x\<in>set (children (conts w c)). B x w1)"
    by blast
  have r1: "same_rest w w1" using w1(2) by (simp add: I_def)
  then have e1: "elements w1 = elements w" "containers w1 = containers w" "conts w1 = conts w"
    by (simp_all add: same_rest_def)
  define I2 where "I2 = (\<lambda>t. I t \<and> hash t = hash w1
      \<and> (\<forall>x\<in>set (elements w). A x t)
      \<and> (\<forall>c\<in>set (containers w). \<not> is_static (conts w c) \<longrightarrow> (\<forall>x\<in>set (children (conts w c)). B x t)))"
  have "\<exists>w2. visit update_unless_static updateObject w1 = Inr w2 \<and> I2 w2
     \<and> (\<forall>x\<in>set (elements w1). True)
     \<and> (\<forall>c\<in>set (containers w1). \<not> is_static (conts w1 c) \<longrightarrow>
           (\<forall>x\<in>set (children (conts w1 c)). True))"
  proof (rule visit_rule [where I = I2 and A = "\<lambda>_ _. True" and B = "\<lambda>_ _. True"])
    show "I2 w1" using w1 by (simp add: I2_def)
  next
    fix t assume "I2 t" then show "conts t = conts w1" by (simp add: I2_def I_def same_rest_def e1)
  next
    fix x t assume x: "x \<in> set (elements w1)" and t: "I2 t"
    then have "I t" "A x t" by (simp_all add: I2_def e1)
    with uus [of t x] obtain t' where "update_unless_static x t = Inr t'" "I t'"
      "\<forall>y. A y t \<longrightarrow> A y t'" "\<forall>y. B y t \<longrightarrow> B y t'" "hash t' = hash t"
      by blast
    then show "\<exists>t'. update_unless_static x t = Inr t' \<and> I2 t' \<and> True"
      using t by (simp add: I2_def)
  next
    fix c x t assume c: "c \<in> set (containers w1)" "\<not> is_static (conts w1 c)"
      "x \<in> set (children (conts w1 c))" and t: "I2 t"
    then have "I t" "B x t" by (simp_all add: I2_def e1)
    with uo [of t x] obtain t' where "updateObject x t = Inr t'" "I t'"
      "\<forall>y. A y t \<longrightarrow> A y t'" "\<forall>y. B y t \<longrightarrow> B y t'" "hash t' = hash t"
      by blast
    then show "\<exists>t'. updateObject x t = Inr t' \<and> I2 t' \<and> True"
      using t by (simp add: I2_def)
  qed simp_all
  then obtain w2 where "visit update_unless_static updateObject w1 = Inr w2" "hash w2 = hash w1"
    by (auto simp: I2_def)
  then show ?thesis using w1(1) r1 by blast
qed

lemma refresh_twice_dirty:
  assumes wf: "wf_index w"
  shows "\<exists>w1 w2. visit update_if_dirty update_if_dirty w = Inr w1 \<and> same_rest w w1
     \<and> visit update_if_dirty update_if_dirty w1 = Inr w2 \<and> hash w2 = hash w1"
proof -
  define I where "I = (\<lambda>t. wf_index t \<and> same_rest w t)"
  define A where "A = (\<lambda>x (t::world). \<not> dirty (objs t x))"
  have uid: "\<exists>t'. update_if_dirty x t = Inr t' \<and> I t' \<and> A x t'
      \<and> (\<forall>y. A y t \<longrightarrow> A y t') \<and> (A x t \<longrightarrow> t' = t)"
    if "I t" for x t
  proof -
    from that have "wf_index t" by (simp add: I_def)
    from update_if_dirty_step [OF this, of x] obtain t' where t':
      "update_if_dirty x t = Inr t'" "wf_index t'" "same_rest t t'" "\<not> dirty (objs t' x)"
      "\<forall>y. \<not> dirty (objs t y) \<longrightarrow> \<not> dirty (objs t' y)" "\<not> dirty (objs t x) \<longrightarrow> t' = t"
      by blast
    have "I t'"
      using that t'(2) same_rest_trans [OF _ t'(3), of w] by (simp add: I_def)
    then show ?thesis
      using t'(1,4,5,6) by (auto simp: A_def)
  qed
  have "\<exists>w1. visit update_if_dirty update_if_dirty w = Inr w1 \<and> I w1
     \<and> (\<forall>x\<in>set (elements w). A x w1)
     \<and> (\<forall>c\<in>set (containers w). \<not> is_static (conts w c) \<longrightarrow>
           (\<forall>x\<in>set (children (conts w c)). A x w1))"
  proof (rule visit_rule [where I = I and A = A and B = A])
    show "I w" using wf by (simp add: I_def)
  next
    fix t assume "I t" then show "conts t = conts w" by (simp add: I_def same_rest_def)
  next
    fix x t assume "I t"
    from uid [OF this, of x] show "\<exists>t'. update_if_dirty x t = Inr t' \<and> I t' \<and> A x t'" by blast
  next
    fix x t assume "I t"
    from uid [OF this, of x] show "\<exists>t'. update_if_dirty x t = Inr t' \<and> I t' \<and> A x t'" by blast
  next
    fix x y t t' assume "I t" "A y t" "update_if_dirty x t = Inr t'"
    then show "A y t'" using uid [of t x] by auto
  next
    fix x y t t' assume "I t" "A y t" "update_if_dirty x t = Inr t'"
    then show "A y t'" using uid [of t x] by auto
  next
    fix x y t t' assume "I t" "A y t" "update_if_dirty x t = Inr t'"
    then show "A y t'" using uid [of t x] by auto
  qed
  then obtain w1 where w1: "visit update_if_dirty update_if_dirty w = Inr w1" "I w1"
    "\<forall>x\<in>set (elements w). A x w1"
    "\<forall>c\<in>set (containers w). \<not> is_static (conts w c) \<longrightarrow> (\<forall>x\<in>set (children (conts w c)). A x w1)"
    by blast
  have r1: "same_rest w w1" using w1(2) by (simp add: I_def)
  then have e1: "elements w1 = elements w" "containers w1 = containers w" "conts w1 = conts w"
    by (simp_all add: same_rest_def)
  have "\<exists>w2. visit update_if_dirty update_if_dirty w1 = Inr w2 \<and> w2 = w1
     \<and> (\<forall>x\<in>set (elements w1). True)
     \<and> (\<forall>c\<in>set (containers w1). \<not> is_static (conts w1 c) \<longrightarrow>
           (\<forall>x\<in>set (children (conts w1 c)). True))"
  proof (rule visit_rule [where I = "\<lambda>t. t = w1" and A = "\<lambda>_ _. True" and B = "\<lambda>_ _. True"])
    fix x t assume x: "x \<in> set (elements w1)" and t: "t = w1"
    then have "A x w1" using w1(3) by (simp add: e1)
    with uid [OF w1(2), of x] t show "\<exists>t'. update_if_dirty x t = Inr t' \<and> t' = w1 \<and> True"
      by auto
  next
    fix c x t assume c: "c \<in> set (containers w1)" "\<not> is_static (conts w1 c)"
      "x \<in> set (children (conts w1 c))" and t: "t = w1"
    then have "A x w1" using w1(4) by (simp add: e1)
    with uid [OF w1(2), of x] t show "\<exists>t'. update_if_dirty x t = Inr t' \<and> t' = w1 \<and> True"
      by auto
  qed simp_all
  then have "visit update_if_dirty update_if_dirty w1 = Inr w1" by simp
  then show ?thesis using w1(1) r1 by blast
qed

text \<open>
  C8: refresh is idempotent. On every well-formed index, in dirty-test mode and in
  full-scan mode, \<open>updateObjects\<close> returns, a second \<open>updateObjects\<close> right after it returns
  too, and the second call leaves the hash, every key and every bucket, as the first call
  left it.
\<close>

theorem refresh_idempotent:
  assumes "wf_index w"
  shows "\<exists>w1 w2. updateObjects w = Inr w1 \<and> updateObjects w1 = Inr w2 \<and> hash w2 = hash w1"
proof (cases "dirtyTest w")
  case True
  from refresh_twice_dirty [OF assms] obtain w1 w2 where
    "visit update_if_dirty update_if_dirty w = Inr w1" "same_rest w w1"
    "visit update_if_dirty update_if_dirty w1 = Inr w2" "hash w2 = hash w1"
    by blast
  moreover from this have "dirtyTest w1" using True by (simp add: same_rest_def)
  ultimately show ?thesis using True by (auto simp: updateObjects_visit)
next
  case False
  from refresh_twice_full_scan [OF assms] obtain w1 w2 where
    "visit update_unless_static updateObject w = Inr w1" "same_rest w w1"
    "visit update_unless_static updateObject w1 = Inr w2" "hash w2 = hash w1"
    by blast
  moreover from this have "\<not> dirtyTest w1" using False by (simp add: same_rest_def)
  ultimately show ?thesis using False by (auto simp: updateObjects_visit)
qed

theorem refresh_idempotent_witness:
  "(\<exists>w. run [Add 0 False, Add 1 True, SetObject 0 ((sprite 150 10 20 20)\<lparr>dirty := True\<rparr>)] world0 = Inr w
        \<and> wf_index w
        \<and> (\<exists>w1 w2. updateObjects w = Inr w1 \<and> updateObjects w1 = Inr w2 \<and> hash w2 = hash w1))
   \<and> after [Add 0 False, Add 1 True, SetObject 0 ((sprite 150 10 20 20)\<lparr>dirty := True\<rparr>)] world0
        (\<lambda>w. hash w = [((0, 0), [0]), ((1, 0), [1])])
   \<and> after [Add 0 False, Add 1 True, SetObject 0 ((sprite 150 10 20 20)\<lparr>dirty := True\<rparr>),
             UpdateObjects] world0
        (\<lambda>w. hash w = [((0, 0), []), ((1, 0), [1, 0])])
   \<and> after [Add 0 False, Add 1 True, SetObject 0 ((sprite 150 10 20 20)\<lparr>dirty := True\<rparr>),
             UpdateObjects, UpdateObjects] world0
        (\<lambda>w. hash w = [((0, 0), []), ((1, 0), [1, 0])])"
proof -
  from safeD [OF safe_run wf_index_world0,
      of "[Add 0 False, Add 1 True, SetObject 0 ((sprite 150 10 20 20)\<lparr>dirty := True\<rparr>)]"]
  obtain w where w:
    "run [Add 0 False, Add 1 True, SetObject 0 ((sprite 150 10 20 20)\<lparr>dirty := True\<rparr>)] world0 = Inr w"
    "wf_index w"
    by blast
  have 1: "after [Add 0 False, Add 1 True, SetObject 0 ((sprite 150 10 20 20)\<lparr>dirty := True\<rparr>)] world0
        (\<lambda>w. hash w = [((0, 0), [0]), ((1, 0), [1])])"
    by (simp add: eval_defs)
  have 2: "after [Add 0 False, Add 1 True, SetObject 0 ((sprite 150 10 20 20)\<lparr>dirty := True\<rparr>),
             UpdateObjects] world0
        (\<lambda>w. hash w = [((0, 0), []), ((1, 0), [1, 0])])"
    by (simp add: eval_defs)
  have 3: "after [Add 0 False, Add 1 True, SetObject 0 ((sprite 150 10 20 20)\<lparr>dirty := True\<rparr>),
             UpdateObjects, UpdateObjects] world0
        (\<lambda>w. hash w = [((0, 0), []), ((1, 0), [1, 0])])"
    by (simp add: eval_defs)
  from refresh_idempotent [OF w(2)] w 1 2 3 show ?thesis by blast
qed

subsection \<open>Consistency of buckets and spatial states\<close>

lemma consistent_count:
  "consistent w \<longleftrightarrow>
     (\<forall>ob k. count_list (bucket w k) ob = (if k \<in> set (hashes_of w ob) then 1 else 0))"
proof
  assume c: "consistent w"
  show "\<forall>ob k. count_list (bucket w k) ob = (if k \<in> set (hashes_of w ob) then 1 else 0)"
  proof (intro allI)
    fix ob k
    show "count_list (bucket w k) ob = (if k \<in> set (hashes_of w ob) then 1 else 0)"
    proof (cases "k \<in> set (hashes_of w ob)")
      case True
      then show ?thesis using c unfolding consistent_def by simp
    next
      case False
      then have "ob \<notin> set (bucket w k)" using c unfolding consistent_def by blast
      then show ?thesis using False by (simp add: count_list_0_iff)
    qed
  qed
next
  assume a: "\<forall>ob k. count_list (bucket w k) ob = (if k \<in> set (hashes_of w ob) then 1 else 0)"
  have 1: "count_list (bucket w k) ob = 1" if "k \<in> set (hashes_of w ob)" for ob k
    using a that by simp
  have 2: "k \<in> set (hashes_of w ob)" if "ob \<in> set (bucket w k)" for ob k
  proof (rule ccontr)
    assume "k \<notin> set (hashes_of w ob)"
    then have "count_list (bucket w k) ob = 0" using a by simp
    then show False using that by (simp add: count_list_0_iff)
  qed
  show "consistent w" unfolding consistent_def using 1 2 by blast
qed

lemma consistent_others:
  assumes "consistent w" and "others_same ob w w'"
    and "\<And>k. count_list (bucket w' k) ob = (if k \<in> set (hashes_of w' ob) then 1 else 0)"
  shows "consistent w'"
proof -
  have "count_list (bucket w' k) p = (if k \<in> set (hashes_of w' p) then 1 else 0)" for p k
  proof (cases "p = ob")
    case True
    then show ?thesis using assms(3) by simp
  next
    case False
    have "count_list (bucket w' k) p = count_list (bucket w k) p"
      using assms(2) False unfolding others_same_def by blast
    moreover have "hashes_of w' p = hashes_of w p"
      by (rule others_same_hashes_of [OF assms(2) False])
    ultimately show ?thesis
      using assms(1) unfolding consistent_count by simp
  qed
  then show ?thesis unfolding consistent_count by blast
qed

lemma consistent_inert:
  assumes "consistent w" and "hash w' = hash w" and "\<And>p. hashes_of w' p = hashes_of w p"
  shows "consistent w'"
  using assms(1) unfolding consistent_def by (simp add: bucket_def assms(2,3))

lemma consistent_updateObject:
  assumes "wf_index w" and "consistent w" and "updateObject ob w = Inr w'"
  shows "consistent w'"
proof -
  define b where "b = cell_range w (computeAABB (objs w ob))"
  from updateObject_effect [OF assms(1) b_def] assms(3) have w':
    "others_same ob w w'"
    "range_differs (spatial_or_empty (objs w ob)) b \<longrightarrow>
          hashes_of w' ob = cells b
          \<and> (\<forall>k. count_list (bucket w' k) ob =
                count_list (bucket w k) ob - (if k \<in> set (hashes_of w ob) then 1 else 0)
                + (if k \<in> set (cells b) then 1 else 0))"
    "\<not> range_differs (spatial_or_empty (objs w ob)) b \<longrightarrow>
          hash w' = hash w \<and> spatial (objs w' ob) = Some (spatial_or_empty (objs w ob))"
    by auto
  have c: "count_list (bucket w k) ob = (if k \<in> set (hashes_of w ob) then 1 else 0)" for k
    using assms(2) unfolding consistent_count by blast
  have "count_list (bucket w' k) ob = (if k \<in> set (hashes_of w' ob) then 1 else 0)" for k
  proof (cases "range_differs (spatial_or_empty (objs w ob)) b")
    case True
    then show ?thesis using w'(2) by (simp add: c)
  next
    case False
    then have h: "hash w' = hash w" and s: "spatial (objs w' ob) = Some (spatial_or_empty (objs w ob))"
      using w'(3) by simp_all
    have "hashes_of w' ob = hashes_of w ob"
      by (simp add: hashes_of_spatial_or_empty [of w ob]) (simp add: hashes_of_def s)
    then show ?thesis using c [of k] by (simp add: bucket_def h)
  qed
  then show ?thesis by (rule consistent_others [OF assms(2) w'(1)])
qed

lemma consistent_removeFromHash:
  assumes "wf_index w" and "consistent w" and "removeFromHash ob w = Inr w'"
  shows "consistent w'"
proof -
  from removeFromHash_effect [OF assms(1), of ob] assms(3) have w':
    "others_same ob w w'" "hashes_of w' ob = []"
    "\<forall>k. count_list (bucket w' k) ob =
            count_list (bucket w k) ob - (if k \<in> set (hashes_of w ob) then 1 else 0)"
    by auto
  have c: "count_list (bucket w k) ob = (if k \<in> set (hashes_of w ob) then 1 else 0)" for k
    using assms(2) unfolding consistent_count by blast
  have "count_list (bucket w' k) ob = (if k \<in> set (hashes_of w' ob) then 1 else 0)" for k
    using w'(2,3) by (simp add: c)
  then show ?thesis by (rule consistent_others [OF assms(2) w'(1)])
qed

lemma soundI: "wf_index w \<Longrightarrow> consistent w \<Longrightarrow> (\<And>c. removed_only (conts w c)) \<Longrightarrow> sound w"
  by (simp add: sound_def)

lemma soundD:
  assumes "sound w"
  shows "wf_index w" and "consistent w" and "removed_only (conts w c)"
  using assms by (simp_all add: sound_def)

lemma sound_same_conts:
  "sound w \<Longrightarrow> wf_index w' \<Longrightarrow> consistent w' \<Longrightarrow> conts w' = conts w \<Longrightarrow> sound w'"
  by (simp add: sound_def)

lemma keepsI: "(\<And>w. sound w \<Longrightarrow> \<exists>w'. f w = Inr w' \<and> sound w') \<Longrightarrow> keeps f"
  by (simp add: keeps_def)

lemma keepsD: "keeps f \<Longrightarrow> sound w \<Longrightarrow> \<exists>w'. f w = Inr w' \<and> sound w'"
  by (simp add: keeps_def)

lemma keeps_bindE:
  assumes "keeps f" and "keeps g"
  shows "keeps (\<lambda>w. bindE (f w) g)"
proof (rule keepsI)
  fix w assume "sound w"
  from keepsD [OF assms(1) this] obtain w1 where w1: "f w = Inr w1" "sound w1"
    by blast
  from keepsD [OF assms(2) w1(2)] show "\<exists>w'. bindE (f w) g = Inr w' \<and> sound w'"
    using w1(1) by simp
qed

lemma keeps_foldE:
  assumes "\<And>x. x \<in> set xs \<Longrightarrow> keeps (f x)"
  shows "keeps (foldE f xs)"
proof (rule keepsI)
  fix w assume s: "sound w"
  show "\<exists>w'. foldE f xs w = Inr w' \<and> sound w'"
  proof (rule foldE_inv [where I = sound])
    show "sound w" by (rule s)
  next
    fix x t assume x: "x \<in> set xs" and t: "sound t"
    from keepsD [OF assms [OF x] t] show "\<exists>t'. f x t = Inr t' \<and> sound t'" .
  qed
qed

lemma keeps_dep:
  assumes "\<And>v. keeps (f v)"
  shows "keeps (\<lambda>w. f (g w) w)"
  using assms by (simp add: keeps_def)

lemma keeps_if:
  assumes "keeps f" and "keeps g"
  shows "keeps (\<lambda>w. if c w then f w else g w)"
  using assms by (simp add: keeps_def)

lemma keeps_Inr: "keeps Inr"
  by (simp add: keeps_def)

lemma sound_inert:
  assumes "sound w" and "xSize w' = xSize w \<and> ySize w' = ySize w \<and> hash w' = hash w"
    and "\<And>p. spatial (objs w' p) = spatial (objs w p)"
    and "\<And>p. AABB (objs w p) \<noteq> None \<Longrightarrow> AABB (objs w' p) \<noteq> None"
    and "\<And>c. removed_only (conts w c) \<Longrightarrow> removed_only (conts w' c)"
  shows "sound w'"
proof (rule soundI)
  show "wf_index w'"
    by (rule wf_index_inert [OF soundD(1) [OF assms(1)]]) (use assms in auto)
  show "consistent w'"
    by (rule consistent_inert [OF soundD(2) [OF assms(1)]]) (simp_all add: assms hashes_of_def)
  show "removed_only (conts w' c)" for c
    by (rule assms(5) [OF soundD(3) [OF assms(1)]])
qed

lemma keeps_inert:
  assumes "\<And>w. xSize (g w) = xSize w \<and> ySize (g w) = ySize w \<and> hash (g w) = hash w"
    and "\<And>w p. spatial (objs (g w) p) = spatial (objs w p)"
    and "\<And>w p. AABB (objs w p) \<noteq> None \<Longrightarrow> AABB (objs (g w) p) \<noteq> None"
    and "\<And>w c. removed_only (conts w c) \<Longrightarrow> removed_only (conts (g w) c)"
  shows "keeps (\<lambda>w. Inr (g w))"
proof (rule keepsI)
  fix w assume s: "sound w"
  have "sound (g w)"
    by (rule sound_inert [OF s]) (use assms in auto)
  then show "\<exists>w'. Inr (g w) = Inr w' \<and> sound w'" by simp
qed

lemma keeps_comp:
  assumes "keeps (\<lambda>w. Inr (g w))" and "keeps f"
  shows "keeps (\<lambda>w. f (g w))"
proof -
  have "keeps (\<lambda>w. bindE (Inr (g w)) f)"
    by (rule keeps_bindE [OF assms])
  then show ?thesis by simp
qed

lemma sound_updateObject:
  assumes "sound w"
  shows "\<exists>w'. updateObject ob w = Inr w' \<and> sound w' \<and> others_same ob w w'"
proof -
  from updateObject_step [OF soundD(1) [OF assms], of ob] obtain w' where
    w': "updateObject ob w = Inr w'" "wf_index w'" "others_same ob w w'"
    by blast
  have "conts w' = conts w"
    using others_same_rest [OF w'(3)] by (simp add: same_rest_def)
  then have "sound w'"
    using sound_same_conts [OF assms w'(2) consistent_updateObject [OF soundD(1,2) [OF assms] w'(1)]]
    by simp
  then show ?thesis using w'(1,3) by blast
qed

lemma sound_removeFromHash:
  assumes "sound w"
  shows "\<exists>w'. removeFromHash ob w = Inr w' \<and> sound w' \<and> others_same ob w w'"
proof -
  from removeFromHash_effect [OF soundD(1) [OF assms], of ob] obtain w' where
    w': "removeFromHash ob w = Inr w'" "wf_index w'" "others_same ob w w'"
    by blast
  have "conts w' = conts w"
    using others_same_rest [OF w'(3)] by (simp add: same_rest_def)
  then have "sound w'"
    using sound_same_conts [OF assms w'(2) consistent_removeFromHash [OF soundD(1,2) [OF assms] w'(1)]]
    by simp
  then show ?thesis using w'(1,3) by blast
qed

lemma keeps_updateObject: "keeps (updateObject ob)"
  by (rule keepsI) (use sound_updateObject in blast)

lemma keeps_removeFromHash: "keeps (removeFromHash ob)"
  by (rule keepsI) (use sound_removeFromHash in blast)

lemma keeps_remove_obj: "keeps (remove_obj ob)"
proof -
  have 1: "keeps (\<lambda>w. Inr (w\<lparr>elements := splice_indexOf ob (elements w)\<rparr>))"
    by (rule keeps_inert) simp_all
  show ?thesis
    unfolding remove_obj_def by (rule keeps_comp [OF 1 keeps_removeFromHash])
qed

lemma removed_only_off: "removed_only k \<Longrightarrow> removed_only (off_event ev fn k)"
  by (simp add: removed_only_def off_event_def list_all_iff)

lemma keeps_removeContainer: "keeps (removeContainer c)"
proof -
  have 0: "keeps (\<lambda>w. Inr (w\<lparr>containers := splice_indexOf c (containers w)\<rparr>))"
    by (rule keeps_inert) simp_all
  have 1: "keeps (\<lambda>w. foldE removeFromHash (children (conts w c)) w)"
    by (rule keeps_dep) (rule keeps_foldE, rule keeps_removeFromHash)
  have 2: "keeps (\<lambda>w2. Inr (
           let w3 = upd_cont c (\<lambda>k. off_event ''childAdded'' (Option.bind (ccull k) added) k) w2;
               w4 = upd_cont c (\<lambda>k. off_event ''removedFrom'' (Option.bind (ccull k) removed) k) w3;
               w5 = upd_cont c (\<lambda>k. k\<lparr>ccull := None\<rparr>) w4
           in w5))"
    by (rule keeps_inert)
       (auto simp: Let_def upd_cont_def removed_only_off, simp add: removed_only_def off_event_def list_all_iff)
  have "keeps (\<lambda>w. bindE (foldE removeFromHash (children (conts w c)) w) (\<lambda>w2. Inr (
           let w3 = upd_cont c (\<lambda>k. off_event ''childAdded'' (Option.bind (ccull k) added) k) w2;
               w4 = upd_cont c (\<lambda>k. off_event ''removedFrom'' (Option.bind (ccull k) removed) k) w3;
               w5 = upd_cont c (\<lambda>k. k\<lparr>ccull := None\<rparr>) w4
           in w5)))"
    by (rule keeps_bindE [OF 1 2])
  from keeps_comp [OF 0 this] show ?thesis
    unfolding removeContainer_def Let_def by simp
qed

lemma keeps_update_if_dirty: "keeps (update_if_dirty ob)"
proof -
  have 1: "keeps (\<lambda>w'. Inr (upd_obj ob (\<lambda>d. d\<lparr>dirty := False\<rparr>) w'))"
    by (rule keeps_inert) (auto simp: upd_obj_def)
  have "keeps (\<lambda>w. if dirty (objs w ob)
      then bindE (updateObject ob w) (\<lambda>w'. Inr (upd_obj ob (\<lambda>d. d\<lparr>dirty := False\<rparr>) w'))
      else Inr w)"
    by (rule keeps_if [OF keeps_bindE [OF keeps_updateObject 1] keeps_Inr])
  then show ?thesis
    unfolding update_if_dirty_def [abs_def] .
qed

lemma keeps_update_unless_static: "keeps (update_unless_static ob)"
proof -
  have "keeps (\<lambda>w. if \<not> staticObject (objs w ob) then updateObject ob w else Inr w)"
    by (rule keeps_if [OF keeps_updateObject keeps_Inr])
  then show ?thesis
    unfolding update_unless_static_def [abs_def] .
qed

lemma keeps_visit:
  assumes "\<And>ob. keeps (f ob)" and "\<And>ob. keeps (g ob)"
  shows "keeps (visit f g)"
proof -
  have 1: "keeps (\<lambda>w. foldE f (elements w) w)"
    by (rule keeps_dep) (rule keeps_foldE, rule assms(1))
  have 2: "keeps (\<lambda>w'. if \<not> is_static (conts w' c) then foldE g (children (conts w' c)) w' else Inr w')" for c
  proof (rule keeps_if [OF _ keeps_Inr])
    show "keeps (\<lambda>w'. foldE g (children (conts w' c)) w')"
      by (rule keeps_dep) (rule keeps_foldE, rule assms(2))
  qed
  have 3: "keeps (\<lambda>w. bindE (foldE f (elements w) w)
       (foldE (\<lambda>c w'. if \<not> is_static (conts w' c)
                       then foldE g (children (conts w' c)) w'
                       else Inr w') cs))" for cs
    by (rule keeps_bindE [OF 1]) (rule keeps_foldE, rule 2)
  show ?thesis
  proof (rule keepsI)
    fix w assume "sound w"
    from keepsD [OF 3 this, of "containers w"]
    show "\<exists>w'. visit f g w = Inr w' \<and> sound w'"
      by (simp add: visit_def)
  qed
qed

lemma keeps_updateObjects: "keeps updateObjects"
proof (rule keepsI)
  fix w assume "sound w"
  then show "\<exists>w'. updateObjects w = Inr w' \<and> sound w'"
    using keepsD [OF keeps_visit [OF keeps_update_if_dirty keeps_update_if_dirty], of w]
      keepsD [OF keeps_visit [OF keeps_update_unless_static keeps_updateObject], of w]
    by (simp add: updateObjects_visit)
qed

lemma keeps_cull: "keeps (\<lambda>w. bindE (cull R skip None w ()) (\<lambda>r. Inr (fst (snd r))))"
proof (rule keepsI)
  fix w assume s: "sound w"
  have "\<exists>w1. (if \<not> skip then updateObjects w else Inr w) = Inr w1 \<and> sound w1"
    using keepsD [OF keeps_updateObjects s] s by (cases skip) simp_all
  then obtain w1 where w1: "(if \<not> skip then updateObjects w else Inr w) = Inr w1" "sound w1"
    by blast
  from cull_effect [OF soundD(1) [OF w1(2)] w1(1), of R "()"] obtain n w' where w':
    "cull R skip None w () = Inr (n, w', ())" "hash w' = hash w1" "same_rest w1 w'"
    "\<forall>p. objs w' p = (objs w1 p)\<lparr>visible :=
           (if found w1 R (simpleTest w1) p then True
            else if tracked w1 p then False else visible (objs w1 p))\<rparr>"
    by blast
  have "sound w'"
    by (rule sound_inert [OF w1(2)]) (use w'(2,3) in \<open>simp_all add: w'(4) same_rest_def\<close>)
  then show "\<exists>w'. bindE (cull R skip None w ()) (\<lambda>r. Inr (fst (snd r))) = Inr w' \<and> sound w'"
    using w'(1) by simp
qed

lemma keeps_setObject: "keeps (\<lambda>w. Inr (setObject ob d w))"
  by (rule keeps_inert) (auto simp: setObject_def upd_obj_def)

subsection \<open>Guarded registration\<close>

lemma sound_reset:
  assumes "sound w" and "hashes_of w ob = []"
  shows "sound (upd_obj ob (\<lambda>d. d\<lparr>spatial := Some empty_spatial\<rparr>) w)"
proof (rule soundI)
  let ?w = "upd_obj ob (\<lambda>d. d\<lparr>spatial := Some empty_spatial\<rparr>) w"
  have h: "hashes_of ?w p = hashes_of w p" for p
    using assms(2) by (simp add: hashes_of_def empty_spatial_def)
  show "wf_index ?w"
    by (rule wf_index_inert [OF soundD(1) [OF assms(1)]])
       (auto simp: hashes_of_def empty_spatial_def)
  show "consistent ?w"
    by (rule consistent_inert [OF soundD(2) [OF assms(1)]]) (simp_all add: h)
  show "removed_only (conts ?w c)" for c
    using soundD(3) [OF assms(1), of c] by (simp add: upd_obj_def)
qed

lemma sound_track_child:
  assumes "sound w" and "hashes_of w ob = []"
  shows "\<exists>w'. track_child ob w = Inr w' \<and> sound w'
     \<and> (\<forall>y. y \<noteq> ob \<longrightarrow> hashes_of w' y = hashes_of w y)"
proof -
  let ?w = "upd_obj ob (\<lambda>d. d\<lparr>spatial := Some empty_spatial\<rparr>) w"
  from sound_updateObject [OF sound_reset [OF assms], of ob] obtain w' where
    w': "updateObject ob ?w = Inr w'" "sound w'" "others_same ob ?w w'"
    by blast
  have "hashes_of w' y = hashes_of w y" if "y \<noteq> ob" for y
    using others_same_hashes_of [OF w'(3) that] that by (simp add: hashes_of_def)
  then show ?thesis
    using w'(1,2) by (simp add: track_child_def)
qed

lemma sound_add_obj:
  assumes "sound w" and "hashes_of w ob = []"
  shows "\<exists>w'. add_obj ob st w = Inr w' \<and> sound w'"
proof -
  define w1 where "w1 = upd_obj ob (\<lambda>d. d\<lparr>spatial := Some empty_spatial\<rparr>) w"
  define w3 where "w3 =
     (let w2 = (if dirtyTest w1 then upd_obj ob (\<lambda>d. d\<lparr>dirty := True\<rparr>) w1 else w1)
      in (if st then upd_obj ob (\<lambda>d. d\<lparr>staticObject := True\<rparr>) w2 else w2))"
  have 1: "sound w1"
    unfolding w1_def by (rule sound_reset [OF assms])
  have 3: "sound w3"
    by (rule sound_inert [OF 1]) (auto simp: w3_def Let_def upd_obj_def)
  from sound_updateObject [OF 3, of ob] obtain w4 where
    w4: "updateObject ob w3 = Inr w4" "sound w4"
    by blast
  have 5: "sound (w4\<lparr>elements := elements w4 @ [ob]\<rparr>)"
    by (rule sound_inert [OF w4(2)]) simp_all
  have "add_obj ob st w = bindE (updateObject ob w3) (\<lambda>w4. Inr (w4\<lparr>elements := elements w4 @ [ob]\<rparr>))"
    by (simp add: add_obj_def Let_def w1_def w3_def)
  then have "add_obj ob st w = Inr (w4\<lparr>elements := elements w4 @ [ob]\<rparr>)"
    by (simp add: w4(1))
  then show ?thesis using 5 by blast
qed

lemma sound_track_children:
  "sound w \<Longrightarrow> distinct xs \<Longrightarrow> \<forall>x\<in>set xs. hashes_of w x = [] \<Longrightarrow>
   \<exists>w'. foldE track_child xs w = Inr w' \<and> sound w'"
proof (induction xs arbitrary: w)
  case Nil
  then show ?case by simp
next
  case (Cons x xs)
  have "hashes_of w x = []" using Cons.prems(3) by simp
  from sound_track_child [OF Cons.prems(1) this] obtain w1 where
    w1: "track_child x w = Inr w1" "sound w1" "\<forall>y. y \<noteq> x \<longrightarrow> hashes_of w1 y = hashes_of w y"
    by blast
  have "\<forall>y\<in>set xs. hashes_of w1 y = []"
    using w1(3) Cons.prems(2,3) by auto
  moreover have "distinct xs" using Cons.prems(2) by simp
  ultimately obtain w' where "foldE track_child xs w1 = Inr w'" "sound w'"
    using Cons.IH [OF w1(2)] by blast
  then show ?case using w1(1) by simp
qed

lemma removed_only_on:
  "removed_only k \<Longrightarrow> removed_only (on_event ''childRemoved'' (Removed n) (on_event ''childAdded'' (Added n) k))"
  by (simp add: removed_only_def on_event_def)

lemma sound_addContainer:
  assumes "sound w" and "distinct (children (conts w c))"
    and "\<forall>x\<in>set (children (conts w c)). hashes_of w x = []"
  shows "\<exists>w'. addContainer c st w = Inr w' \<and> sound w'"
proof -
  define w0 where "w0 = w\<lparr>nextClosure := nextClosure w + 1\<rparr>"
  have 0: "sound w0"
    by (rule sound_inert [OF assms(1)]) (simp_all add: w0_def)
  have c0: "children (conts w0 c) = children (conts w c)"
    and h0: "hashes_of w0 x = hashes_of w x" for x
    by (simp_all add: w0_def hashes_of_def)
  from sound_track_children [OF 0, of "children (conts w0 c)"] assms(2,3) obtain w1 where
    w1: "foldE track_child (children (conts w0 c)) w0 = Inr w1" "sound w1"
    by (auto simp: c0 h0)
  define w7 where "w7 =
    (let n = nextClosure w;
         w2 = upd_cont c (\<lambda>k. k\<lparr>ccull := Some \<lparr>static = False, added = None, removed = None\<rparr>\<rparr>) w1;
         w3 = w2\<lparr>containers := containers w2 @ [c]\<rparr>;
         w4 = upd_cont c (on_event ''childAdded'' (Added n)) w3;
         w5 = upd_cont c (on_event ''childRemoved'' (Removed n)) w4;
         w6 = upd_cont c (\<lambda>k. k\<lparr>ccull := map_option
                (\<lambda>cu. cu\<lparr>added := Some (Added n), removed := Some (Removed n)\<rparr>) (ccull k)\<rparr>) w5
     in (if st
         then upd_cont c (\<lambda>k. k\<lparr>ccull := map_option (\<lambda>cu. cu\<lparr>static := True\<rparr>) (ccull k)\<rparr>) w6
         else w6))"
  have 7: "sound w7"
    by (rule sound_inert [OF w1(2)])
       (auto simp: w7_def Let_def upd_cont_def removed_only_def on_event_def)
  have "addContainer c st w = Inr w7"
    using w1(1) by (simp add: addContainer_def Let_def w0_def w7_def)
  then show ?thesis using 7 by blast
qed

lemma sound_run_closure_removed:
  assumes "sound w"
  shows "\<exists>w'. run_closure (Removed n) ob w = Inr w' \<and> sound w'"
  using sound_removeFromHash [OF assms, of ob] by auto

lemma sound_emit_removed:
  assumes "sound w"
  shows "\<exists>w'. emit c ''childRemoved'' ob w = Inr w' \<and> sound w'"
  unfolding emit_def
proof (rule foldE_inv [where I = sound])
  show "sound w" by (rule assms)
next
  fix l t assume l: "l \<in> set (filter (\<lambda>l. fst l = ''childRemoved'') (listeners (conts w c)))"
    and t: "sound t"
  have "removed_only (conts w c)" by (rule soundD(3) [OF assms])
  then obtain n where "snd l = Removed n"
    using l by (cases "snd l") (auto simp: removed_only_def list_all_iff)
  then show "\<exists>t'. run_closure (snd l) ob t = Inr t' \<and> sound t'"
    using sound_run_closure_removed [OF t] by simp
qed

lemma sound_emit_added:
  assumes "sound w" and "hashes_of w ob = []"
    and "length (filter (\<lambda>l. fst l = ''childAdded'') (listeners (conts w c))) \<le> 1"
  shows "\<exists>w'. emit c ''childAdded'' ob w = Inr w' \<and> sound w'"
proof (cases "filter (\<lambda>l. fst l = ''childAdded'') (listeners (conts w c))")
  case Nil
  then show ?thesis using assms(1) by (simp add: emit_def)
next
  case (Cons l ls)
  then have ls: "ls = []" using assms(3) by simp
  show ?thesis
  proof (cases "snd l")
    case (Added n)
    then show ?thesis
      using sound_track_child [OF assms(1,2)] Cons ls by (auto simp: emit_def)
  next
    case (Removed n)
    then show ?thesis
      using sound_run_closure_removed [OF assms(1), of n ob] Cons ls by (auto simp: emit_def)
  qed
qed

lemma sound_children_upd:
  assumes "sound w"
  shows "sound (upd_cont c (\<lambda>k. k\<lparr>children := f (children k)\<rparr>) w)"
  by (rule sound_inert [OF assms]) (auto simp: upd_cont_def removed_only_def)

lemma sound_addChild:
  assumes "sound w" and "hashes_of w ob = []"
    and "length (filter (\<lambda>l. fst l = ''childAdded'') (listeners (conts w c))) \<le> 1"
  shows "\<exists>w'. addChild c ob w = Inr w' \<and> sound w'"
proof -
  let ?w = "upd_cont c (\<lambda>k. k\<lparr>children := children k @ [ob]\<rparr>) w"
  have "sound ?w"
    using sound_children_upd [OF assms(1), of c "\<lambda>xs. xs @ [ob]"] by simp
  moreover have "hashes_of ?w ob = []"
    using assms(2) by (simp add: hashes_of_def upd_cont_def)
  moreover have "length (filter (\<lambda>l. fst l = ''childAdded'') (listeners (conts ?w c))) \<le> 1"
    using assms(3) by (simp add: upd_cont_def)
  ultimately show ?thesis
    unfolding addChild_def by (rule sound_emit_added)
qed

lemma sound_removeChild:
  assumes "sound w"
  shows "\<exists>w'. removeChild c ob w = Inr w' \<and> sound w'"
proof (cases "ob \<in> set (children (conts w c))")
  case False
  then show ?thesis using assms by (simp add: removeChild_def)
next
  case True
  have "sound (upd_cont c (\<lambda>k. k\<lparr>children := remove1 ob (children k)\<rparr>) w)"
    by (rule sound_children_upd [OF assms])
  from sound_emit_removed [OF this, of c ob] show ?thesis
    using True by (simp add: removeChild_def)
qed

lemma sound_step:
  assumes "sound w" and "guard op w"
  shows "\<exists>w'. step op w = Inr w' \<and> sound w'"
proof (cases op)
  case (Add ob st)
  then show ?thesis using sound_add_obj [OF assms(1), of ob st] assms(2) by simp
next
  case (Remove ob)
  then show ?thesis using keepsD [OF keeps_remove_obj assms(1), of ob] by simp
next
  case (AddContainer c st)
  then show ?thesis
    using sound_addContainer [OF assms(1), of c st] assms(2) by (simp add: list_all_iff)
next
  case (RemoveContainer c)
  then show ?thesis using keepsD [OF keeps_removeContainer assms(1), of c] by simp
next
  case UpdateObjects
  then show ?thesis using keepsD [OF keeps_updateObjects assms(1)] by simp
next
  case (Cull R skip)
  then show ?thesis using keepsD [OF keeps_cull assms(1), of R skip] by simp
next
  case (AddChild c ob)
  then show ?thesis using sound_addChild [OF assms(1), of ob c] assms(2) by simp
next
  case (RemoveChild c ob)
  then show ?thesis using sound_removeChild [OF assms(1), of c ob] by simp
next
  case (SetObject ob d)
  then show ?thesis using keepsD [OF keeps_setObject assms(1), of ob d] by simp
qed

lemma sound_run:
  "sound w \<Longrightarrow> guarded ops w \<Longrightarrow> \<exists>w'. run ops w = Inr w' \<and> sound w'"
proof (induction ops arbitrary: w)
  case Nil
  then show ?case by (simp add: run_def)
next
  case (Cons op ops)
  have g: "guard op w" using Cons.prems(2) by simp
  from sound_step [OF Cons.prems(1) g] obtain w1 where w1: "step op w = Inr w1" "sound w1"
    by blast
  have "guarded ops w1" using Cons.prems(2) w1(1) by simp
  from Cons.IH [OF w1(2) this] show ?case
    using w1(1) by (simp add: run_def)
qed

lemma sound_constructor:
  assumes "xSize (constructor opts os cs) \<noteq> 0" and "ySize (constructor opts os cs) \<noteq> 0"
    and "\<And>ob. spatial (os ob) = None" and "\<And>c. listeners (cs c) = []"
  shows "sound (constructor opts os cs)"
proof (rule soundI)
  have o: "objs (constructor opts os cs) = os" and c: "conts (constructor opts os cs) = cs"
    and h: "hash (constructor opts os cs) = []"
    by (simp_all add: constructor_def Let_def)
  have hs: "hashes_of (constructor opts os cs) ob = []" for ob
    by (simp add: hashes_of_def o assms(3))
  show "wf_index (constructor opts os cs)"
    by (rule wf_index_constructor [OF assms(1,2) hs])
  have "bucket (constructor opts os cs) k = []" for k
    by (simp add: bucket_def entry_of_def h)
  then show "consistent (constructor opts os cs)"
    by (simp add: consistent_def hs)
  show "removed_only (conts (constructor opts os cs) k)" for k
    by (simp add: c removed_only_def assms(4))
qed

subsection \<open>Bidirectional consistency\<close>

text \<open>
  C3, as stated, fails: registering an object twice is a sequence of register operations,
  and after \<open>add\<close> of object 0 twice the object is tracked, has the key (0, 0) in its spatial
  state and appears twice in the bucket of (0, 0).
\<close>

theorem double_add_duplicates_bucket_entry:
  "after [Add 0 False, Add 0 False] world0
     (\<lambda>w. tracked w 0 \<and> hashes_of w 0 = [(0, 0)] \<and> bucket w (0, 0) = [0, 0]
        \<and> count_list (bucket w (0, 0)) 0 = 2)"
  by (simp add: eval_defs tracked_def)

text \<open>
  C3, amended: start from a new index with cell sizes other than zero, over objects that
  have no spatial state and containers that have no listeners, and run any sequence of
  \<open>add\<close>, \<open>remove\<close>, \<open>addContainer\<close>, \<open>removeContainer\<close>, \<open>updateObjects\<close>, \<open>cull\<close>, changes of the
  objects by their owner and children added to or removed from containers, in which no
  object is registered while it occupies a bucket (the guard). Then every operation
  returns, and in the final state every object is exactly once in the bucket of each key
  of its spatial state, and every entry of every bucket has the bucket's key in its spatial
  state.
\<close>

theorem consistent_after_guarded_run:
  assumes "xSize (constructor opts os cs) \<noteq> 0" and "ySize (constructor opts os cs) \<noteq> 0"
    and "\<forall>ob. spatial (os ob) = None" and "\<forall>c. listeners (cs c) = []"
    and "guarded ops (constructor opts os cs)"
  shows "\<exists>w. run ops (constructor opts os cs) = Inr w
     \<and> (\<forall>ob k. k \<in> set (hashes_of w ob) \<longrightarrow> count_list (bucket w k) ob = 1)
     \<and> (\<forall>k ob. ob \<in> set (bucket w k) \<longrightarrow> k \<in> set (hashes_of w ob))"
proof -
  have "sound (constructor opts os cs)"
    by (rule sound_constructor) (use assms in auto)
  from sound_run [OF this assms(5)] obtain w where
    w: "run ops (constructor opts os cs) = Inr w" "sound w"
    by blast
  have "consistent w" by (rule soundD(2) [OF w(2)])
  then show ?thesis
    using w(1) unfolding consistent_def by blast
qed

theorem consistent_after_guarded_run_witness:
  "xSize (constructor cell100 scene groups) \<noteq> 0 \<and> ySize (constructor cell100 scene groups) \<noteq> 0
   \<and> (\<forall>ob. spatial (scene ob) = None) \<and> (\<forall>c. listeners (groups c) = [])
   \<and> guarded [Add 0 False, AddContainer 0 True, Add 1 False,
               SetObject 0 ((sprite 150 110 20 20)\<lparr>dirty := True\<rparr>), UpdateObjects,
               Remove 1, RemoveChild 0 2, AddChild 0 1] (constructor cell100 scene groups)
   \<and> (\<exists>w. run [Add 0 False, AddContainer 0 True, Add 1 False,
               SetObject 0 ((sprite 150 110 20 20)\<lparr>dirty := True\<rparr>), UpdateObjects,
               Remove 1, RemoveChild 0 2, AddChild 0 1] (constructor cell100 scene groups) = Inr w
        \<and> (\<forall>ob k. k \<in> set (hashes_of w ob) \<longrightarrow> count_list (bucket w k) ob = 1)
        \<and> (\<forall>k ob. ob \<in> set (bucket w k) \<longrightarrow> k \<in> set (hashes_of w ob)))"
proof -
  have 1: "xSize (constructor cell100 scene groups) \<noteq> 0" "ySize (constructor cell100 scene groups) \<noteq> 0"
    by (simp_all add: constructor_def cell100_def)
  have 2: "\<forall>ob. spatial (scene ob) = None" "\<forall>c. listeners (groups c) = []"
    by (simp_all add: scene_def sprite_def groups_def group_def)
  have 3: "guarded [Add 0 False, AddContainer 0 True, Add 1 False,
               SetObject 0 ((sprite 150 110 20 20)\<lparr>dirty := True\<rparr>), UpdateObjects,
               Remove 1, RemoveChild 0 2, AddChild 0 1] (constructor cell100 scene groups)"
    by (simp add: eval_defs)
  from consistent_after_guarded_run [OF 1 2 3] 1 2 3 show ?thesis by blast
qed

subsection \<open>Moving an object\<close>

lemma placed_cong:
  assumes "placed w ob t" and "xSize t' = xSize t" and "ySize t' = ySize t"
    and "objs t' ob = objs t ob" and "\<And>k. count_list (bucket t' k) ob = count_list (bucket t k) ob"
  shows "placed w ob t'"
proof -
  have "settled t' ob = settled t ob"
    by (rule settled_cong [OF assms(2,3,4)])
  moreover have "hashes_of t' ob = hashes_of t ob"
    by (simp add: hashes_of_def assms(4))
  ultimately show ?thesis
    using assms(1) unfolding placed_def by (simp add: assms(4,5))
qed

lemma relocating_updateObject:
  assumes "relocating w ob t"
  shows "\<exists>t'. updateObject x t = Inr t' \<and> relocating w ob t'
     \<and> (placed w ob t \<longrightarrow> placed w ob t') \<and> (x = ob \<longrightarrow> placed w ob t')
     \<and> (\<forall>p. dirty (objs t' p) = dirty (objs t p))
     \<and> (\<forall>p. staticObject (objs t' p) = staticObject (objs t p))"
proof -
  have wf: "wf_index t" and co: "consistent t" and sr: "same_rest w t"
    and tr: "computeAABB (objs t ob) = computeAABB (objs w ob)"
    and pu: "placed w ob t \<or> objs t ob = objs w ob"
    using assms by (simp_all add: relocating_def)
  define b where "b = cell_range t (computeAABB (objs t x))"
  from updateObject_effect [OF wf b_def] obtain t' where t':
    "updateObject x t = Inr t'" "wf_index t'" "others_same x t t'"
    "objs t' x = (objs t x)\<lparr>AABB := Some (computeAABB (objs t x)), spatial := spatial (objs t' x)\<rparr>"
    "range_differs (spatial_or_empty (objs t x)) b \<longrightarrow>
          hashes_of t' x = cells b
          \<and> (\<forall>k. count_list (bucket t' k) x =
                count_list (bucket t k) x - (if k \<in> set (hashes_of t x) then 1 else 0)
                + (if k \<in> set (cells b) then 1 else 0))"
    "\<not> range_differs (spatial_or_empty (objs t x)) b \<longrightarrow>
          hash t' = hash t \<and> spatial (objs t' x) = Some (spatial_or_empty (objs t x))"
    by blast
  from updateObject_step [OF wf, of x] t'(1) have st: "settled t' x"
    by auto
  have co': "consistent t'" by (rule consistent_updateObject [OF wf co t'(1)])
  have sr': "same_rest w t'"
    by (rule same_rest_trans [OF sr others_same_rest [OF t'(3)]])
  have sz: "xSize t' = xSize t" "ySize t' = ySize t" "xSize t = xSize w" "ySize t = ySize w"
    using same_rest_sizes [OF others_same_rest [OF t'(3)]] same_rest_sizes [OF sr] by simp_all
  have fl: "\<forall>p. dirty (objs t' p) = dirty (objs t p)"
    "\<forall>p. staticObject (objs t' p) = staticObject (objs t p)"
    using updateObject_static_same [OF wf t'(1)] by simp_all
  show ?thesis
  proof (cases "x = ob")
    case False
    have o: "objs t' ob = objs t ob"
      using others_same_objs [OF t'(3)] False by simp
    have c: "count_list (bucket t' k) ob = count_list (bucket t k) ob" for k
      using t'(3) False by (auto simp: others_same_def)
    have keep: "placed w ob t'" if "placed w ob t"
      by (rule placed_cong [OF that sz(1,2) o c])
    have "relocating w ob t'"
      unfolding relocating_def using t'(2) co' sr' tr pu keep by (auto simp: o)
    then show ?thesis using t'(1) keep fl False by blast
  next
    case True
    have bw: "b = new_range w ob"
      by (simp add: b_def True new_range_def cell_range_def tr sz)
    have a': "AABB (objs t' ob) = Some (computeAABB (objs w ob))"
      by (subst t'(4) [unfolded True]) (simp add: tr)
    have tr': "computeAABB (objs t' ob) = computeAABB (objs w ob)"
      by (subst t'(4) [unfolded True]) (simp add: tr)
    have c: "count_list (bucket t k) ob = (if k \<in> set (hashes_of t ob) then 1 else 0)" for k
      using co unfolding consistent_count by blast
    have d: "hashes_of t' ob = cells (new_range w ob)
        \<and> (\<forall>k. count_list (bucket t' k) ob = (if k \<in> set (cells (new_range w ob)) then 1 else 0))"
      if D: "range_differs (spatial_or_empty (objs w ob)) (new_range w ob)"
    proof (cases "range_differs (spatial_or_empty (objs t ob)) b")
      case True
      then show ?thesis
        using t'(5) [unfolded \<open>x = ob\<close>] by (simp add: c bw)
    next
      case False
      then have h: "hash t' = hash t" and sp: "spatial (objs t' ob) = Some (spatial_or_empty (objs t ob))"
        using t'(6) [unfolded \<open>x = ob\<close>] by simp_all
      have "objs t ob \<noteq> objs w ob"
        using False D by (auto simp: bw)
      then have p: "placed w ob t" using pu by simp
      have "hashes_of t' ob = hashes_of t ob"
        by (simp add: hashes_of_spatial_or_empty [of t ob]) (simp add: hashes_of_def sp)
      moreover have "bucket t' k = bucket t k" for k
        by (simp add: bucket_def h)
      ultimately show ?thesis
        using p D unfolding placed_def by simp
    qed
    have pl: "placed w ob t'"
      unfolding placed_def using st a' d True by simp
    have "relocating w ob t'"
      unfolding relocating_def using t'(2) co' sr' tr' pl by simp
    then show ?thesis using t'(1) pl fl by blast
  qed
qed

lemma placed_dirty_clear:
  assumes "placed w ob t"
  shows "placed w ob (upd_obj x (\<lambda>d. d\<lparr>dirty := False\<rparr>) t)"
  using assms unfolding placed_def
  by (auto simp: settled_def new_range_def cell_range_def spatial_or_empty_def hashes_of_def)

lemma relocating_dirty_clear:
  assumes "relocating w ob t" and "x = ob \<longrightarrow> placed w ob t"
  shows "relocating w ob (upd_obj x (\<lambda>d. d\<lparr>dirty := False\<rparr>) t)"
proof -
  let ?t = "upd_obj x (\<lambda>d. d\<lparr>dirty := False\<rparr>) t"
  have wf: "wf_index t" and co: "consistent t" and sr: "same_rest w t"
    and tr: "computeAABB (objs t ob) = computeAABB (objs w ob)"
    and pu: "placed w ob t \<or> objs t ob = objs w ob"
    using assms(1) by (simp_all add: relocating_def)
  have wf': "wf_index ?t"
    by (rule wf_index_inert [OF wf]) auto
  have co': "consistent ?t"
    by (rule consistent_inert [OF co]) (simp_all add: hashes_of_def)
  have sr': "same_rest w ?t"
    by (rule same_rest_trans [OF sr]) simp
  have tr': "computeAABB (objs ?t ob) = computeAABB (objs w ob)"
    using tr by auto
  have pu': "placed w ob ?t \<or> objs ?t ob = objs w ob"
  proof (cases "placed w ob t")
    case True
    then show ?thesis using placed_dirty_clear by blast
  next
    case False
    then have "x \<noteq> ob" "objs t ob = objs w ob" using assms(2) pu by auto
    then show ?thesis by simp
  qed
  show ?thesis
    unfolding relocating_def using wf' co' sr' tr' pu' by blast
qed

lemma relocating_update_if_dirty:
  assumes "relocating w ob t"
  shows "\<exists>t'. update_if_dirty x t = Inr t' \<and> relocating w ob t'
     \<and> (placed w ob t \<longrightarrow> placed w ob t') \<and> (x = ob \<and> dirty (objs w ob) \<longrightarrow> placed w ob t')"
proof (cases "dirty (objs t x)")
  case False
  have "placed w ob t" if "x = ob" "dirty (objs w ob)"
    using that False assms unfolding relocating_def by auto
  then show ?thesis
    using False assms by (auto simp: update_if_dirty_def)
next
  case True
  from relocating_updateObject [OF assms, of x] obtain t1 where t1:
    "updateObject x t = Inr t1" "relocating w ob t1" "placed w ob t \<longrightarrow> placed w ob t1"
    "x = ob \<longrightarrow> placed w ob t1"
    by blast
  define t' where "t' = upd_obj x (\<lambda>d. d\<lparr>dirty := False\<rparr>) t1"
  have 1: "update_if_dirty x t = Inr t'"
    using True t1(1) by (simp add: update_if_dirty_def t'_def)
  have 2: "placed w ob t'" if "placed w ob t1"
    unfolding t'_def by (rule placed_dirty_clear [OF that])
  have 3: "relocating w ob t'"
    unfolding t'_def by (rule relocating_dirty_clear [OF t1(2,4)])
  from 1 2 3 t1(3,4) show ?thesis by blast
qed

lemma relocating_update_unless_static:
  assumes "relocating w ob t"
  shows "\<exists>t'. update_unless_static x t = Inr t' \<and> relocating w ob t'
     \<and> (placed w ob t \<longrightarrow> placed w ob t')
     \<and> (x = ob \<and> \<not> staticObject (objs w ob) \<longrightarrow> placed w ob t')"
proof (cases "staticObject (objs t x)")
  case True
  have "placed w ob t" if "x = ob" "\<not> staticObject (objs w ob)"
    using that True assms unfolding relocating_def by auto
  then show ?thesis
    using True assms by (auto simp: update_unless_static_def)
next
  case False
  from relocating_updateObject [OF assms, of x] obtain t' where
    "updateObject x t = Inr t'" "relocating w ob t'" "placed w ob t \<longrightarrow> placed w ob t'"
    "x = ob \<longrightarrow> placed w ob t'"
    by blast
  then show ?thesis
    using False by (auto simp: update_unless_static_def)
qed

lemma relocating_init:
  "wf_index w \<Longrightarrow> consistent w \<Longrightarrow> relocating w ob w"
  by (simp add: relocating_def)

lemma relocating_visit:
  assumes "wf_index w" and "consistent w"
    and f: "\<And>x t. relocating w ob t \<Longrightarrow> \<exists>t'. f x t = Inr t' \<and> relocating w ob t'
        \<and> (placed w ob t \<longrightarrow> placed w ob t') \<and> (x = ob \<and> cf \<longrightarrow> placed w ob t')"
    and g: "\<And>x t. relocating w ob t \<Longrightarrow> \<exists>t'. g x t = Inr t' \<and> relocating w ob t'
        \<and> (placed w ob t \<longrightarrow> placed w ob t') \<and> (x = ob \<and> cg \<longrightarrow> placed w ob t')"
    and v: "(ob \<in> set (elements w) \<and> cf)
        \<or> (\<exists>c\<in>set (containers w). \<not> is_static (conts w c) \<and> ob \<in> set (children (conts w c)) \<and> cg)"
  shows "\<exists>w'. visit f g w = Inr w' \<and> placed w ob w'"
proof -
  define A where "A = (\<lambda>x t. x = ob \<and> cf \<longrightarrow> placed w ob t)"
  define B where "B = (\<lambda>x t. x = ob \<and> cg \<longrightarrow> placed w ob t)"
  have "\<exists>w'. visit f g w = Inr w' \<and> relocating w ob w'
     \<and> (\<forall>x\<in>set (elements w). A x w')
     \<and> (\<forall>c\<in>set (containers w). \<not> is_static (conts w c) \<longrightarrow>
           (\<forall>x\<in>set (children (conts w c)). B x w'))"
  proof (rule visit_rule [where I = "relocating w ob" and A = A and B = B])
    show "relocating w ob w" by (rule relocating_init [OF assms(1,2)])
  next
    fix t assume "relocating w ob t"
    then show "conts t = conts w" by (simp add: relocating_def same_rest_def)
  next
    fix x t assume "relocating w ob t"
    from f [OF this, of x] show "\<exists>t'. f x t = Inr t' \<and> relocating w ob t' \<and> A x t'"
      by (auto simp: A_def)
  next
    fix x t assume "relocating w ob t"
    from g [OF this, of x] show "\<exists>t'. g x t = Inr t' \<and> relocating w ob t' \<and> B x t'"
      by (auto simp: B_def)
  next
    fix x y t t' assume "relocating w ob t" "A y t" "f x t = Inr t'"
    then show "A y t'" using f [of t x] by (auto simp: A_def)
  next
    fix x y t t' assume "relocating w ob t" "A y t" "g x t = Inr t'"
    then show "A y t'" using g [of t x] by (auto simp: A_def)
  next
    fix x y t t' assume "relocating w ob t" "B y t" "g x t = Inr t'"
    then show "B y t'" using g [of t x] by (auto simp: B_def)
  qed
  then obtain w' where w': "visit f g w = Inr w'"
    "\<forall>x\<in>set (elements w). A x w'"
    "\<forall>c\<in>set (containers w). \<not> is_static (conts w c) \<longrightarrow> (\<forall>x\<in>set (children (conts w c)). B x w')"
    by blast
  have "placed w ob w'"
    using v w'(2,3) by (auto simp: A_def B_def)
  then show ?thesis using w'(1) by blast
qed

lemma visited_placed:
  assumes "wf_index w" and "consistent w" and "visited w ob"
  shows "\<exists>w'. updateObjects w = Inr w' \<and> placed w ob w'"
proof (cases "dirtyTest w")
  case True
  have "\<exists>w'. visit update_if_dirty update_if_dirty w = Inr w' \<and> placed w ob w'"
  proof (rule relocating_visit [OF assms(1,2), where cf = "dirty (objs w ob)" and cg = "dirty (objs w ob)"])
    show "(ob \<in> set (elements w) \<and> dirty (objs w ob))
        \<or> (\<exists>c\<in>set (containers w). \<not> is_static (conts w c) \<and> ob \<in> set (children (conts w c))
              \<and> dirty (objs w ob))"
      using assms(3) True by (auto simp: visited_def)
  qed (rule relocating_update_if_dirty, assumption)+
  then show ?thesis using True by (simp add: updateObjects_visit)
next
  case False
  have "\<exists>w'. visit update_unless_static updateObject w = Inr w' \<and> placed w ob w'"
  proof (rule relocating_visit [OF assms(1,2), where cf = "\<not> staticObject (objs w ob)" and cg = True])
    show "(ob \<in> set (elements w) \<and> \<not> staticObject (objs w ob))
        \<or> (\<exists>c\<in>set (containers w). \<not> is_static (conts w c) \<and> ob \<in> set (children (conts w c))
              \<and> True)"
      using assms(3) False by (auto simp: visited_def)
  next
    fix x t assume "relocating w ob t"
    from relocating_update_unless_static [OF this, of x]
    show "\<exists>t'. update_unless_static x t = Inr t' \<and> relocating w ob t'
        \<and> (placed w ob t \<longrightarrow> placed w ob t') \<and> (x = ob \<and> \<not> staticObject (objs w ob) \<longrightarrow> placed w ob t')" .
  next
    fix x t assume "relocating w ob t"
    from relocating_updateObject [OF this, of x]
    show "\<exists>t'. updateObject x t = Inr t' \<and> relocating w ob t'
        \<and> (placed w ob t \<longrightarrow> placed w ob t') \<and> (x = ob \<and> True \<longrightarrow> placed w ob t')"
      by auto
  qed
  then show ?thesis using False by (simp add: updateObjects_visit)
qed

lemma afterD: "after ops w0 P \<Longrightarrow> run ops w0 = Inr w \<Longrightarrow> P w"
  by (simp add: after_def)

lemma sound_world0: "sound world0"
  unfolding world0_def
  by (rule sound_constructor)
     (simp_all add: constructor_def cell100_def scene_def sprite_def groups_def group_def)

text \<open>
  C7, as stated, fails for a tracked object that the refresh pass does not visit: object 2
  is the child of a container registered as static; it moves from cell (0, 0) to cell
  (1, 0) and is marked dirty. After \<open>updateObjects\<close> it is still dirty, its cached range still
  differs from the range of its transform, and it is still in the bucket of (0, 0) and not
  in the bucket of (1, 0).
\<close>

theorem static_child_is_not_relocated:
  "after [AddContainer 0 True, SetObject 2 ((sprite 150 10 20 20)\<lparr>dirty := True\<rparr>), UpdateObjects]
     world0
     (\<lambda>w. tracked w 2 \<and> dirty (objs w 2) \<and> new_range w 2 = (1, 0, 1, 0)
        \<and> range_differs (spatial_or_empty (objs w 2)) (new_range w 2)
        \<and> hashes_of w 2 = [(0, 0)] \<and> bucket w (0, 0) = [2] \<and> bucket w (1, 0) = [])"
  by (simp add: eval_defs tracked_def new_range_def)

text \<open>
  C7, amended: in a well-formed and consistent index, take an object that the refresh pass
  visits: an element that is dirty (dirty-test mode) or not static (full-scan mode), or a
  child of a tracked container that is not static (dirty, in dirty-test mode). Then
  \<open>updateObjects\<close> returns and caches the AABB of the object's transform; if the cell range
  of that AABB differs from the cached range, the keys of the object become the cells of the
  new range, and the object is exactly once in the bucket of each of them and in no other
  bucket. If the recomputed range equals the cached one, \<open>updateObject\<close> on the object leaves
  the whole hash as it is.
\<close>

theorem move_invalidation:
  assumes "wf_index w" and "consistent w" and "visited w ob"
  shows "\<exists>w'. updateObjects w = Inr w'
     \<and> AABB (objs w' ob) = Some (computeAABB (objs w ob))
     \<and> (range_differs (spatial_or_empty (objs w ob)) (new_range w ob) \<longrightarrow>
          hashes_of w' ob = cells (new_range w ob)
          \<and> (\<forall>k. count_list (bucket w' k) ob = (if k \<in> set (cells (new_range w ob)) then 1 else 0)))
     \<and> (\<exists>w1. updateObject ob w = Inr w1
          \<and> (\<not> range_differs (spatial_or_empty (objs w ob)) (new_range w ob) \<longrightarrow> hash w1 = hash w))"
proof -
  from visited_placed [OF assms] obtain w' where w': "updateObjects w = Inr w'" "placed w ob w'"
    by blast
  from updateObject_effect [OF assms(1) refl, of ob] obtain w1 where w1:
    "updateObject ob w = Inr w1"
    "\<not> range_differs (spatial_or_empty (objs w ob)) (cell_range w (computeAABB (objs w ob))) \<longrightarrow>
          hash w1 = hash w \<and> spatial (objs w1 ob) = Some (spatial_or_empty (objs w ob))"
    by blast
  have "\<not> range_differs (spatial_or_empty (objs w ob)) (new_range w ob) \<longrightarrow> hash w1 = hash w"
    using w1(2) by (simp add: new_range_def)
  then show ?thesis
    using w'(1) w'(2) w1(1) unfolding placed_def by blast
qed

theorem move_invalidation_witness:
  "(\<exists>w. run [Add 0 False, Add 1 False, SetObject 0 ((sprite 150 110 20 20)\<lparr>dirty := True\<rparr>)] world0 = Inr w
      \<and> wf_index w \<and> consistent w \<and> visited w 0
      \<and> range_differs (spatial_or_empty (objs w 0)) (new_range w 0)
      \<and> new_range w 0 = (1, 1, 1, 1)
      \<and> (\<exists>w'. updateObjects w = Inr w'
           \<and> AABB (objs w' 0) = Some (computeAABB (objs w 0))
           \<and> hashes_of w' 0 = cells (new_range w 0)
           \<and> (\<forall>k. count_list (bucket w' k) 0 = (if k \<in> set (cells (new_range w 0)) then 1 else 0))))
   \<and> after [Add 0 False, Add 1 False, SetObject 0 ((sprite 150 110 20 20)\<lparr>dirty := True\<rparr>),
             UpdateObjects] world0
        (\<lambda>w. hash w = [((0, 0), []), ((1, 0), [1]), ((1, 1), [0])] \<and> hashes_of w 0 = [(1, 1)])"
proof -
  let ?ops = "[Add 0 False, Add 1 False, SetObject 0 ((sprite 150 110 20 20)\<lparr>dirty := True\<rparr>)]"
  have g: "guarded ?ops world0"
    by (simp add: eval_defs)
  from sound_run [OF sound_world0 g] obtain w where w: "run ?ops world0 = Inr w" "sound w"
    by blast
  have e: "after ?ops world0 (\<lambda>w. visited w 0
      \<and> range_differs (spatial_or_empty (objs w 0)) (new_range w 0) \<and> new_range w 0 = (1, 1, 1, 1))"
    by (simp add: eval_defs visited_def new_range_def)
  have v: "visited w 0" "range_differs (spatial_or_empty (objs w 0)) (new_range w 0)"
    "new_range w 0 = (1, 1, 1, 1)"
    using afterD [OF e w(1)] by blast+
  have a: "after [Add 0 False, Add 1 False, SetObject 0 ((sprite 150 110 20 20)\<lparr>dirty := True\<rparr>),
             UpdateObjects] world0
        (\<lambda>w. hash w = [((0, 0), []), ((1, 0), [1]), ((1, 1), [0])] \<and> hashes_of w 0 = [(1, 1)])"
    by (simp add: eval_defs)
  from move_invalidation [OF soundD(1,2) [OF w(2)] v(1)] v(2) obtain w' where
    "updateObjects w = Inr w'" "AABB (objs w' 0) = Some (computeAABB (objs w 0))"
    "hashes_of w' 0 = cells (new_range w 0)"
    "\<forall>k. count_list (bucket w' k) 0 = (if k \<in> set (cells (new_range w 0)) then 1 else 0)"
    by blast
  then show ?thesis
    using w(1) soundD(1,2) [OF w(2)] v a by blast
qed

subsection \<open>Static objects\<close>






subsection \<open>Cull correctness\<close>

lemma tracked_iff: "tracked w ob \<longleftrightarrow> ob \<in> set (tracked_objects w)"
  by (auto simp: tracked_def tracked_objects_def)

lemma tracked_objects_cong: "same_rest w w' \<Longrightarrow> tracked_objects w' = tracked_objects w"
  by (simp add: same_rest_def tracked_objects_def)

lemma range_differs_unique:
  "\<not> range_differs sp b1 \<Longrightarrow> \<not> range_differs sp b2 \<Longrightarrow> b1 = b2"
  by (cases b1, cases b2) (simp add: range_differs_def)

lemma cullableD:
  assumes "cullable w"
  shows "wf_index w" and "0 < xSize w" and "0 < ySize w"
    and "ob \<in> set (tracked_objects w) \<Longrightarrow> indexed w ob"
    and "ob \<in> set (tracked_objects w) \<Longrightarrow> nonneg (computeAABB (objs w ob))"
  using assms by (auto simp: cullable_def list_all_iff)

lemma indexed_cong:
  assumes "indexed w ob" and "xSize w' = xSize w" and "ySize w' = ySize w"
    and "objs w' ob = objs w ob" and "\<And>k. ob \<in> set (bucket w' k) \<longleftrightarrow> ob \<in> set (bucket w k)"
  shows "indexed w' ob"
  using assms(1) unfolding indexed_def
  by (simp add: assms(2,3,4,5) cell_range_def split: option.splits)

lemma cullable_updateObject:
  assumes "cullable t"
  shows "\<exists>t'. updateObject x t = Inr t' \<and> cullable t' \<and> same_rest t t'"
proof -
  have wf: "wf_index t" by (rule cullableD(1) [OF assms])
  define b where "b = cell_range t (computeAABB (objs t x))"
  from updateObject_effect [OF wf b_def] obtain t' where t':
    "updateObject x t = Inr t'" "wf_index t'" "others_same x t t'"
    "objs t' x = (objs t x)\<lparr>AABB := Some (computeAABB (objs t x)), spatial := spatial (objs t' x)\<rparr>"
    "\<not> range_differs (spatial_or_empty (objs t' x)) b"
    "range_differs (spatial_or_empty (objs t x)) b \<longrightarrow> hashes_of t' x = cells b"
    "\<not> range_differs (spatial_or_empty (objs t x)) b \<longrightarrow>
          hash t' = hash t \<and> spatial (objs t' x) = Some (spatial_or_empty (objs t x))"
    by blast
  have sr: "same_rest t t'" by (rule others_same_rest [OF t'(3)])
  have sz: "xSize t' = xSize t" "ySize t' = ySize t"
    using same_rest_sizes [OF sr] by simp_all
  have to: "tracked_objects t' = tracked_objects t" by (rule tracked_objects_cong [OF sr])
  have ca: "computeAABB (objs t' p) = computeAABB (objs t p)" for p
  proof (cases "p = x")
    case True
    then show ?thesis by (simp, subst t'(4)) simp
  next
    case False
    then show ?thesis using others_same_objs [OF t'(3)] by simp
  qed
  have ix: "indexed t' p" if p: "p \<in> set (tracked_objects t)" for p
  proof (cases "p = x")
    case False
    show ?thesis
      by (rule indexed_cong [OF cullableD(4) [OF assms p] sz others_same_objs [OF t'(3) False]
            others_same_mem [OF t'(3) False]])
  next
    case True
    have a: "AABB (objs t' x) = Some (computeAABB (objs t x))"
      by (subst t'(4)) simp
    have n: "nonneg (computeAABB (objs t x))"
      using cullableD(5) [OF assms p] True by simp
    have r: "\<not> range_differs (spatial_or_empty (objs t' x)) (cell_range t' (computeAABB (objs t x)))"
      using t'(5) by (simp add: b_def cell_range_def sz)
    have m: "x \<in> set (bucket t' k)" if k: "k \<in> set (cells b)" for k
    proof (cases "range_differs (spatial_or_empty (objs t x)) b")
      case True
      then have "k \<in> set (hashes_of t' x)" using t'(6) k by simp
      then show ?thesis by (rule wf_indexD(4) [OF t'(2)])
    next
      case False
      then have h: "hash t' = hash t" using t'(7) by simp
      from cullableD(4) [OF assms p] \<open>p = x\<close> obtain a0 where a0:
        "AABB (objs t x) = Some a0"
        "\<not> range_differs (spatial_or_empty (objs t x)) (cell_range t a0)"
        "list_all (\<lambda>k. x \<in> set (bucket t k)) (cells (cell_range t a0))"
        by (auto simp: indexed_def split: option.splits)
      have "cell_range t a0 = b"
        by (rule range_differs_unique [OF a0(2) False])
      then have "x \<in> set (bucket t k)"
        using a0(3) k by (simp add: list_all_iff)
      then show ?thesis by (simp add: bucket_def h)
    qed
    have "cell_range t' (computeAABB (objs t x)) = b"
      by (simp add: b_def cell_range_def sz)
    then show ?thesis
      unfolding indexed_def True using a n r m by (simp add: list_all_iff)
  qed
  have "cullable t'"
    unfolding cullable_def
    using t'(2) cullableD(2,3) [OF assms] ix cullableD(5) [OF assms]
    by (simp add: sz to ca list_all_iff)
  then show ?thesis using t'(1) sr by blast
qed

lemma cullable_inert:
  assumes "cullable t" and "same_rest t t'" and "hash t' = hash t"
    and "\<And>p. AABB (objs t' p) = AABB (objs t p)" and "\<And>p. spatial (objs t' p) = spatial (objs t p)"
    and "\<And>p. computeAABB (objs t' p) = computeAABB (objs t p)"
  shows "cullable t'"
proof -
  have sz: "xSize t' = xSize t" "ySize t' = ySize t"
    using same_rest_sizes [OF assms(2)] by simp_all
  have wf: "wf_index t'"
    by (rule wf_index_inert [OF cullableD(1) [OF assms(1)] sz assms(3)]) (simp_all add: assms(4,5))
  have ix: "indexed t' p = indexed t p" for p
    by (cases "AABB (objs t p)")
       (simp_all add: indexed_def assms(4,5) sz cell_range_def bucket_def assms(3) spatial_or_empty_def)
  show ?thesis
    unfolding cullable_def
    using wf assms(1) by (simp add: cullable_def sz tracked_objects_cong [OF assms(2)] ix assms(6))
qed

lemma cullable_update_if_dirty:
  assumes "cullable t"
  shows "\<exists>t'. update_if_dirty x t = Inr t' \<and> cullable t' \<and> same_rest t t'"
proof (cases "dirty (objs t x)")
  case False
  then show ?thesis using assms by (simp add: update_if_dirty_def)
next
  case True
  from cullable_updateObject [OF assms, of x] obtain t1 where t1:
    "updateObject x t = Inr t1" "cullable t1" "same_rest t t1"
    by blast
  define t' where "t' = upd_obj x (\<lambda>d. d\<lparr>dirty := False\<rparr>) t1"
  have "cullable t'"
    by (rule cullable_inert [OF t1(2)]) (auto simp: t'_def)
  moreover have "same_rest t t'"
    using same_rest_trans [OF t1(3), of t'] by (simp add: t'_def)
  moreover have "update_if_dirty x t = Inr t'"
    using True t1(1) by (simp add: update_if_dirty_def t'_def)
  ultimately show ?thesis by blast
qed

lemma cullable_update_unless_static:
  assumes "cullable t"
  shows "\<exists>t'. update_unless_static x t = Inr t' \<and> cullable t' \<and> same_rest t t'"
  using cullable_updateObject [OF assms, of x] assms
  by (cases "staticObject (objs t x)") (simp_all add: update_unless_static_def)

lemma cullable_visit:
  assumes "cullable w"
    and f: "\<And>x t. cullable t \<Longrightarrow> \<exists>t'. f x t = Inr t' \<and> cullable t' \<and> same_rest t t'"
    and g: "\<And>x t. cullable t \<Longrightarrow> \<exists>t'. g x t = Inr t' \<and> cullable t' \<and> same_rest t t'"
  shows "\<exists>w'. visit f g w = Inr w' \<and> cullable w' \<and> same_rest w w'"
proof -
  have "\<exists>w'. visit f g w = Inr w' \<and> (cullable w' \<and> same_rest w w')
     \<and> (\<forall>x\<in>set (elements w). True)
     \<and> (\<forall>c\<in>set (containers w). \<not> is_static (conts w c) \<longrightarrow>
           (\<forall>x\<in>set (children (conts w c)). True))"
  proof (rule visit_rule [where I = "\<lambda>t. cullable t \<and> same_rest w t"
        and A = "\<lambda>_ _. True" and B = "\<lambda>_ _. True"])
    show "cullable w \<and> same_rest w w" using assms(1) by simp
  next
    fix t assume "cullable t \<and> same_rest w t"
    then show "conts t = conts w" by (simp add: same_rest_def)
  next
    fix x t assume t: "cullable t \<and> same_rest w t"
    from f [of t x] t same_rest_trans [of w t]
    show "\<exists>t'. f x t = Inr t' \<and> (cullable t' \<and> same_rest w t') \<and> True" by blast
  next
    fix c x t assume t: "cullable t \<and> same_rest w t"
    from g [of t x] t same_rest_trans [of w t]
    show "\<exists>t'. g x t = Inr t' \<and> (cullable t' \<and> same_rest w t') \<and> True" by blast
  qed simp_all
  then show ?thesis by blast
qed

lemma cullable_updateObjects:
  assumes "cullable w"
  shows "\<exists>w'. updateObjects w = Inr w' \<and> cullable w' \<and> same_rest w w'"
  using cullable_visit [OF assms, of update_if_dirty update_if_dirty]
    cullable_visit [OF assms, of update_unless_static updateObject]
    cullable_update_if_dirty cullable_update_unless_static cullable_updateObject
  by (simp add: updateObjects_visit)

lemma overlap_1d:
  fixes ax aw rx rw s :: real
  assumes "0 < s" and "0 \<le> aw" and "0 \<le> rw" and "rx < ax + aw" and "ax < rx + rw"
  shows "\<exists>i. \<lfloor>ax / s\<rfloor> \<le> i \<and> i \<le> \<lfloor>(ax + aw) / s\<rfloor> \<and> \<lfloor>rx / s\<rfloor> \<le> i \<and> i \<le> \<lfloor>(rx + rw) / s\<rfloor>"
proof -
  have m: "\<lfloor>u / s\<rfloor> \<le> \<lfloor>v / s\<rfloor>" if "u \<le> v" for u v
    by (rule floor_mono) (use that assms(1) in \<open>simp add: divide_right_mono\<close>)
  have 1: "\<lfloor>ax / s\<rfloor> \<le> \<lfloor>(ax + aw) / s\<rfloor>" using assms(2) by (intro m) simp
  have 2: "\<lfloor>rx / s\<rfloor> \<le> \<lfloor>(ax + aw) / s\<rfloor>" using assms(4) by (intro m) simp
  have 3: "\<lfloor>ax / s\<rfloor> \<le> \<lfloor>(rx + rw) / s\<rfloor>" using assms(5) by (intro m) simp
  have 4: "\<lfloor>rx / s\<rfloor> \<le> \<lfloor>(rx + rw) / s\<rfloor>" using assms(3) by (intro m) simp
  show ?thesis
    using 1 2 3 4 by (intro exI [of _ "max \<lfloor>ax / s\<rfloor> \<lfloor>rx / s\<rfloor>"]) simp
qed

lemma hit_found:
  assumes c: "cullable w" and t: "ob \<in> set (tracked_objects w)" and R: "nonneg R"
    and h: "hit w R ob"
  shows "found w R st ob"
proof -
  from h obtain a where a: "AABB (objs w ob) = Some a" "intersects a R"
    by (auto simp: hit_def split: option.splits)
  from cullableD(4) [OF c t] a(1) have ix: "nonneg a"
    "list_all (\<lambda>k. ob \<in> set (bucket w k)) (cells (cell_range w a))"
    by (simp_all add: indexed_def)
  from overlap_1d [OF cullableD(2) [OF c], of "aabb_width a" "aabb_width R" "aabb_x R" "aabb_x a"]
  obtain i where i: "\<lfloor>aabb_x a / xSize w\<rfloor> \<le> i" "i \<le> \<lfloor>(aabb_x a + aabb_width a) / xSize w\<rfloor>"
    "\<lfloor>aabb_x R / xSize w\<rfloor> \<le> i" "i \<le> \<lfloor>(aabb_x R + aabb_width R) / xSize w\<rfloor>"
    using ix(1) R a(2) by (auto simp: nonneg_def intersects_def)
  from overlap_1d [OF cullableD(3) [OF c], of "aabb_height a" "aabb_height R" "aabb_y R" "aabb_y a"]
  obtain j where j: "\<lfloor>aabb_y a / ySize w\<rfloor> \<le> j" "j \<le> \<lfloor>(aabb_y a + aabb_height a) / ySize w\<rfloor>"
    "\<lfloor>aabb_y R / ySize w\<rfloor> \<le> j" "j \<le> \<lfloor>(aabb_y R + aabb_height R) / ySize w\<rfloor>"
    using ix(1) R a(2) by (auto simp: nonneg_def intersects_def)
  have 1: "(i, j) \<in> set (cells (cell_range w a))"
    using i(1,2) j(1,2) by (simp add: cell_range_def set_cells)
  have 2: "(i, j) \<in> set (cells (cell_range w R))"
    using i(3,4) j(3,4) by (simp add: cell_range_def set_cells)
  have "ob \<in> set (bucket w (i, j))"
    using ix(2) 1 by (simp add: list_all_iff)
  then show ?thesis
    unfolding found_def using 2 h by blast
qed


lemma tracked_cong: "same_rest w w' \<Longrightarrow> tracked w' ob = tracked w ob"
  by (simp add: same_rest_def tracked_def)

text \<open>
  C1 fails for an object with a negative scale. Object 0 is a sprite with the local bounds
  (0, 0, 20, 20) at position (110, 10), flipped horizontally (\<open>scale.x = -1\<close>), so that it
  covers the columns 90 to 110 of the world. \<open>add\<close> computes the box
  \<open>x = 110 + (0 - 0) * -1\<close>, \<open>width = 20 * -1\<close>, that is (110, 10, -20, 20), and the cell
  range from column \<open>floor (110 / 100) = 1\<close> to column \<open>floor (90 / 100) = 0\<close>, over which
  the insertion loop never runs: the object is registered and in no bucket. After
  \<open>cull\<close> of the rectangle (0, 0, 200, 60), with \<open>simpleTest\<close> on, the object is tracked,
  its cached AABB intersects the rectangle by the test of the code (110 - 20 > 0 and
  110 < 200, 10 + 20 > 0 and 10 < 60), and it is not visible. The same sprite not flipped,
  at position (90, 10), covers the same columns and is visible after the same call.
\<close>

theorem flipped_object_is_in_no_bucket:
  "after [SetObject 0 ((sprite 110 10 20 20)\<lparr>scale_x := - 1\<rparr>), Add 0 False,
          Cull (rect 0 0 200 60) False] world0
     (\<lambda>w. simpleTest w \<and> tracked w 0 \<and> AABB (objs w 0) = Some (rect 110 10 (- 20) 20)
        \<and> hit w (rect 0 0 200 60) 0 \<and> \<not> visible (objs w 0)
        \<and> hash w = [] \<and> hashes_of w 0 = []
        \<and> cell_range w (rect 110 10 (- 20) 20) = (1, 0, 0, 0))
   \<and> after [SetObject 0 (sprite 90 10 20 20), Add 0 False,
          Cull (rect 0 0 200 60) False] world0
     (\<lambda>w. simpleTest w \<and> tracked w 0 \<and> AABB (objs w 0) = Some (rect 90 10 20 20)
        \<and> hit w (rect 0 0 200 60) 0 \<and> visible (objs w 0)
        \<and> hash w = [((0, 0), [0]), ((1, 0), [0])])"
  by (simp add: eval_defs tracked_def hit_def upto.simps)

text \<open>
  A query rectangle with a negative side finds nothing either: object 0 has the box
  (90, 10, 20, 20) and is in the buckets of the cells (0, 0) and (1, 0); the rectangle
  (105, 0, -10, 60) has the cell range from column 1 to column 0, which is empty, so that
  the query visits no bucket, although the bounds test of the code holds of the two boxes.
\<close>

lemma cull_misses_intersecting_object:
  "after [SetObject 0 (sprite 90 10 20 20), Add 0 False, Cull (rect 105 0 (- 10) 60) False] world0
     (\<lambda>w. simpleTest w \<and> tracked w 0 \<and> AABB (objs w 0) = Some (rect 90 10 20 20)
        \<and> hit w (rect 105 0 (- 10) 60) 0 \<and> \<not> visible (objs w 0)
        \<and> hash w = [((0, 0), [0]), ((1, 0), [0])])"
  by (simp add: eval_defs tracked_def hit_def upto.simps)

text \<open>
  Where no box has a negative side the pass is exact: in a well-formed state with positive
  cell sizes in which every tracked object is indexed (its cached AABB has no negative
  side, its cached range is the cell range of that AABB and it is in the bucket of every
  cell of the range) and has a transform whose box has no negative side, and for a query
  rectangle with no negative side, \<open>cull\<close> with \<open>simpleTest\<close> on returns, tracks the same
  objects as before, and leaves a tracked object visible exactly when its cached AABB
  intersects the rectangle (\<open>box.x + box.width > R.x\<close>, \<open>box.x < R.x + R.width\<close>, and
  the same in y).
\<close>

lemma cull_visible_iff_intersects:
  assumes "cullable w" and "simpleTest w" and "nonneg R"
  shows "\<exists>n w'. cull R skip None w u = Inr (n, w', u)
     \<and> (\<forall>ob. tracked w' ob = tracked w ob)
     \<and> (\<forall>ob. tracked w ob \<longrightarrow> (visible (objs w' ob) \<longleftrightarrow> hit w' R ob))"
proof -
  have "\<exists>w1. (if \<not> skip then updateObjects w else Inr w) = Inr w1 \<and> cullable w1 \<and> same_rest w w1"
    using cullable_updateObjects [OF assms(1)] assms(1) by (cases skip) simp_all
  then obtain w1 where w1: "(if \<not> skip then updateObjects w else Inr w) = Inr w1"
    "cullable w1" "same_rest w w1"
    by blast
  from cull_effect [OF cullableD(1) [OF w1(2)] w1(1), of R u] obtain n w' where w':
    "cull R skip None w u = Inr (n, w', u)" "hash w' = hash w1" "same_rest w1 w'"
    "\<And>p. objs w' p = (objs w1 p)\<lparr>visible :=
           (if found w1 R (simpleTest w1) p then True
            else if tracked w1 p then False else visible (objs w1 p))\<rparr>"
    by blast
  have st: "simpleTest w1" using w1(3) assms(2) by (simp add: same_rest_def)
  have t1: "tracked w1 ob = tracked w ob" for ob by (rule tracked_cong [OF w1(3)])
  have t': "tracked w' ob = tracked w ob" for ob
    using tracked_cong [OF w'(3), of ob] t1 by simp
  have a: "AABB (objs w' p) = AABB (objs w1 p)" for p by (subst w'(4)) simp
  have h: "hit w' R p = hit w1 R p" for p by (simp add: hit_def a)
  have "visible (objs w' ob) \<longleftrightarrow> hit w' R ob" if t: "tracked w ob" for ob
  proof -
    have to: "ob \<in> set (tracked_objects w1)" using t t1 by (simp add: tracked_iff)
    have f: "found w1 R True ob \<longleftrightarrow> hit w1 R ob"
      using hit_found [OF w1(2) to assms(3)] by (auto simp: found_def)
    have "visible (objs w' ob) \<longleftrightarrow> found w1 R True ob"
      using t t1 st by (subst w'(4)) simp
    then show ?thesis using f h by simp
  qed
  then show ?thesis using w'(1) t' by blast
qed

lemma cull_visible_iff_intersects_example:
  "(\<exists>w. run [Add 0 False, Add 1 False] world0 = Inr w
      \<and> cullable w \<and> simpleTest w \<and> nonneg (rect 0 0 60 60) \<and> tracked w 0 \<and> tracked w 1
      \<and> (\<exists>n w'. cull (rect 0 0 60 60) False None w () = Inr (n, w', ())
           \<and> tracked w' 0 \<and> tracked w' 1
           \<and> (visible (objs w' 0) \<longleftrightarrow> hit w' (rect 0 0 60 60) 0)
           \<and> (visible (objs w' 1) \<longleftrightarrow> hit w' (rect 0 0 60 60) 1)))
   \<and> after [Add 0 False, Add 1 False, Cull (rect 0 0 60 60) False] world0
        (\<lambda>w. visible (objs w 0) \<and> \<not> visible (objs w 1)
           \<and> hit w (rect 0 0 60 60) 0 \<and> \<not> hit w (rect 0 0 60 60) 1)"
proof -
  let ?ops = "[Add 0 False, Add 1 False]"
  let ?R = "rect 0 0 60 60"
  from safeD [OF safe_run wf_index_world0, of ?ops] obtain w where
    w: "run ?ops world0 = Inr w" "wf_index w"
    by blast
  have e: "after ?ops world0 (\<lambda>w. 0 < xSize w \<and> 0 < ySize w \<and> simpleTest w
      \<and> tracked w 0 \<and> tracked w 1
      \<and> list_all (\<lambda>ob. indexed w ob \<and> nonneg (computeAABB (objs w ob))) (tracked_objects w))"
    by (simp add: eval_defs tracked_def tracked_objects_def indexed_def nonneg_def upto.simps)
  have c: "cullable w" and s: "simpleTest w" and t: "tracked w 0" "tracked w 1"
    using afterD [OF e w(1)] w(2) by (simp_all add: cullable_def)
  have r: "nonneg ?R" by (simp add: nonneg_def rect_def)
  have a: "after [Add 0 False, Add 1 False, Cull ?R False] world0
        (\<lambda>w. visible (objs w 0) \<and> \<not> visible (objs w 1)
           \<and> hit w ?R 0 \<and> \<not> hit w ?R 1)"
    by (simp add: eval_defs hit_def upto.simps)
  from cull_visible_iff_intersects [OF c s r, of False "()"] obtain n w' where
    "cull ?R False None w () = Inr (n, w', ())"
    "\<forall>ob. tracked w' ob = tracked w ob"
    "\<forall>ob. tracked w ob \<longrightarrow> (visible (objs w' ob) \<longleftrightarrow> hit w' ?R ob)"
    by blast
  then have "\<exists>n w'. cull ?R False None w () = Inr (n, w', ())
           \<and> tracked w' 0 \<and> tracked w' 1
           \<and> (visible (objs w' 0) \<longleftrightarrow> hit w' ?R 0)
           \<and> (visible (objs w' 1) \<longleftrightarrow> hit w' ?R 1)"
    using t by blast
  then show ?thesis using w(1) c s r t a by blast
qed

subsection \<open>Construction\<close>

text \<open>
  C5, as stated: construction with a zero or negative cell width or height fails with an
  error. The constructor has no validation: given \<open>xSize = 0\<close> and \<open>ySize = -5\<close> it returns
  an index with exactly these cell dimensions.
\<close>

theorem constructor_accepts_nonpositive_size:
  "xSize (constructor \<lparr>o_size = None, o_xSize = Some 0, o_ySize = Some (- 5),
                        o_simpleTest = None, o_dirtyTest = None\<rparr> scene groups) = 0
   \<and> ySize (constructor \<lparr>o_size = None, o_xSize = Some 0, o_ySize = Some (- 5),
                        o_simpleTest = None, o_dirtyTest = None\<rparr> scene groups) = - 5"
  by (simp add: constructor_def)

text \<open>
  C5, amended: construction never fails and performs no validation. With \<open>size\<close> absent,
  each cell dimension, positive or not, is stored as given, and an absent dimension
  defaults to 1000, whether the other one is given or not; a \<open>size\<close> other than zero sets
  both dimensions, and a \<open>size\<close> of zero is ignored; \<open>simpleTest\<close> and \<open>dirtyTest\<close> are
  as given and true when omitted; the index starts empty.
\<close>

theorem constructor_dimensions:
  "xSize (constructor \<lparr>o_size = None, o_xSize = x, o_ySize = y,
                        o_simpleTest = st, o_dirtyTest = dt\<rparr> os cs)
       = (case x of None \<Rightarrow> 1000 | Some v \<Rightarrow> v)
   \<and> ySize (constructor \<lparr>o_size = None, o_xSize = x, o_ySize = y,
                        o_simpleTest = st, o_dirtyTest = dt\<rparr> os cs)
       = (case y of None \<Rightarrow> 1000 | Some v \<Rightarrow> v)
   \<and> xSize (constructor \<lparr>o_size = Some 0, o_xSize = x, o_ySize = y,
                        o_simpleTest = st, o_dirtyTest = dt\<rparr> os cs)
       = (case x of None \<Rightarrow> 1000 | Some v \<Rightarrow> v)
   \<and> ySize (constructor \<lparr>o_size = Some 0, o_xSize = x, o_ySize = y,
                        o_simpleTest = st, o_dirtyTest = dt\<rparr> os cs)
       = (case y of None \<Rightarrow> 1000 | Some v \<Rightarrow> v)
   \<and> (s \<noteq> 0 \<longrightarrow>
        xSize (constructor \<lparr>o_size = Some s, o_xSize = x, o_ySize = y,
                        o_simpleTest = st, o_dirtyTest = dt\<rparr> os cs) = s
      \<and> ySize (constructor \<lparr>o_size = Some s, o_xSize = x, o_ySize = y,
                        o_simpleTest = st, o_dirtyTest = dt\<rparr> os cs) = s)
   \<and> simpleTest (constructor \<lparr>o_size = sz, o_xSize = x, o_ySize = y,
                        o_simpleTest = st, o_dirtyTest = dt\<rparr> os cs)
       = (case st of None \<Rightarrow> True | Some b \<Rightarrow> b)
   \<and> dirtyTest (constructor \<lparr>o_size = sz, o_xSize = x, o_ySize = y,
                        o_simpleTest = st, o_dirtyTest = dt\<rparr> os cs)
       = (case dt of None \<Rightarrow> True | Some b \<Rightarrow> b)
   \<and> width (constructor opts os cs) = 0
   \<and> height (constructor opts os cs) = 0
   \<and> hash (constructor opts os cs) = []
   \<and> elements (constructor opts os cs) = []
   \<and> containers (constructor opts os cs) = []"
  by (simp add: constructor_def Let_def)

theorem constructor_dimensions_witness:
  "(- 7 :: real) \<noteq> 0
   \<and> xSize (constructor \<lparr>o_size = Some (- 7), o_xSize = Some 3, o_ySize = None,
                        o_simpleTest = None, o_dirtyTest = None\<rparr> scene groups) = - 7
   \<and> ySize (constructor \<lparr>o_size = Some (- 7), o_xSize = Some 3, o_ySize = None,
                        o_simpleTest = None, o_dirtyTest = None\<rparr> scene groups) = - 7
   \<and> xSize (constructor \<lparr>o_size = None, o_xSize = Some 3, o_ySize = None,
                        o_simpleTest = None, o_dirtyTest = None\<rparr> scene groups) = 3
   \<and> ySize (constructor \<lparr>o_size = None, o_xSize = Some 3, o_ySize = None,
                        o_simpleTest = None, o_dirtyTest = None\<rparr> scene groups) = 1000
   \<and> simpleTest (constructor \<lparr>o_size = Some (- 7), o_xSize = Some 3, o_ySize = None,
                        o_simpleTest = None, o_dirtyTest = None\<rparr> scene groups)
   \<and> dirtyTest (constructor \<lparr>o_size = Some (- 7), o_xSize = Some 3, o_ySize = None,
                        o_simpleTest = None, o_dirtyTest = None\<rparr> scene groups)"
  using constructor_dimensions [where s = "- 7" and x = "Some 3" and y = None and st = None
      and dt = None and os = scene and cs = groups and sz = "Some (- 7)"]
  by simp

subsection \<open>Unregistering an object that was never registered\<close>

text \<open>
  C6 at a failing input: object 0 is registered, object 1 never was. \<open>remove\<close> of object 1
  finds index \<open>-1\<close> and splices the last element off the element list: object 0 leaves
  the list of tracked elements while it stays in its bucket with its spatial state.
\<close>

theorem remove_unregistered_drops_last_element:
  "after [Add 0 False] world0 (\<lambda>w. elements w = [0] \<and> hash w = [((0, 0), [0])])
   \<and> after [Add 0 False, Remove 1] world0
       (\<lambda>w. elements w = [] \<and> hash w = [((0, 0), [0])] \<and> hashes_of w 0 = [(0, 0)])"
  by (simp add: eval_defs)

subsection \<open>The short-circuiting query\<close>

text \<open>
  C4 at a failing input: object 0, with box (10, 10, 20, 20), shares cell (0, 0) with the
  query rectangle (50, 50, 10, 10) and does not intersect it. \<open>query\<close> with the bounds
  test returns nothing, but \<open>queryCallback\<close> with the bounds test invokes the callback
  on object 0 and returns true: its test compares the object's box with itself.
\<close>

theorem queryCallback_ignores_rectangle:
  "after [Add 0 False] world0
     (\<lambda>w. AABB (objs w 0) = Some (rect 10 10 20 20)
        \<and> \<not> intersects (rect 10 10 20 20) (rect 50 50 10 10)
        \<and> bindE (query (rect 50 50 10 10) True w) (\<lambda>r. Inr (fst r)) = Inr []
        \<and> queryCallback (rect 50 50 10 10) (\<lambda>ob u. (True, u @ [ob])) True w [] = Inr (True, [0]))"
  by (simp add: eval_defs)

subsection \<open>Unregistering a container\<close>

text \<open>
  C9 at a failing input: container 0 is registered and unregistered. \<open>removeContainer\<close>
  calls \<open>off\<close> for the event \<open>removedFrom\<close>, to which nothing was subscribed, so the
  \<open>childRemoved\<close> listener stays. Object 2 is then registered on its own; when the scene
  graph removes it from container 0, the listener purges it from its bucket although it is
  still a tracked element.
\<close>

theorem removeContainer_keeps_childRemoved_listener:
  "after [AddContainer 0 False] world0
     (\<lambda>w. listeners (conts w 0) = [(''childAdded'', Added 0), (''childRemoved'', Removed 0)]
        \<and> containers w = [0] \<and> hash w = [((0, 0), [2])])
   \<and> after [AddContainer 0 False, RemoveContainer 0] world0
     (\<lambda>w. listeners (conts w 0) = [(''childRemoved'', Removed 0)]
        \<and> containers w = [] \<and> hash w = [((0, 0), [])])
   \<and> after [AddContainer 0 False, RemoveContainer 0, Add 2 False] world0
     (\<lambda>w. elements w = [2] \<and> hash w = [((0, 0), [2])])
   \<and> after [AddContainer 0 False, RemoveContainer 0, Add 2 False, RemoveChild 0 2] world0
     (\<lambda>w. elements w = [2] \<and> hash w = [((0, 0), [])] \<and> hashes_of w 2 = [])"
  by (simp add: eval_defs)

end
